theory Spec2Isabelle
  imports Main "HOL-Library.Multiset"
begin

text \<open>
  A text-file analyzer written in Go: three analyzers of the content of a file (words,
  lines, word frequencies), a sequential and a parallel function that run them on a list
  of files (analyze.go), and the interactive pipeline of \<open>main\<close> (a producer, a pool of
  workers, a filter stage and an aggregator, with cancellation).

  Sequential code is a function. The goroutines of \<open>AnalyzeParallel\<close> and of the pool of
  \<open>main\<close> are transition systems: a state holds what each goroutine is doing, an event is
  one step of one goroutine (or a send with its receive), and a schedule is a list of
  events. A property of the concurrent code is a property of every schedule.
\<close>

section \<open>Go strings and the library functions the analyzers call\<close>

text \<open>
  A Go string is a sequence of bytes; \<^typ>\<open>string\<close> (a list of 8-bit characters) is that
  sequence. A rune is a Unicode code point, a natural number here.

  \<open>strings.Fields\<close>, \<open>strings.Count\<close>, \<open>strings.ToLower\<close> and \<open>filepath.Base\<close>
  belong to the Go standard library. They are modelled from their documented behaviour:
  \<open>Fields\<close> walks the string rune by rune (UTF-8 decoding, an invalid byte is the rune
  \<open>U+FFFD\<close> of width 1) and cuts at runs of \<open>unicode.IsSpace\<close> runes.
\<close>

type_synonym rune = nat

definition RuneError :: rune where
  "RuneError = 0xFFFD"

definition contByte :: "nat \<Rightarrow> nat \<Rightarrow> nat \<Rightarrow> bool" where
  "contByte lo hi b \<longleftrightarrow> lo \<le> b \<and> b \<le> hi"

text \<open>
  \<open>utf8.DecodeRuneInString\<close>: the rune at the front of the string and its width in
  bytes. The first byte selects the length and the range accepted for the second byte
  (\<open>E0\<close>: \<open>A0..BF\<close>, \<open>ED\<close>: \<open>80..9F\<close>, \<open>F0\<close>: \<open>90..BF\<close>, \<open>F4\<close>: \<open>80..8F\<close>,
  otherwise \<open>80..BF\<close>); every malformed or truncated sequence is \<open>(RuneError, 1)\<close>.
\<close>

fun DecodeRuneInString :: "string \<Rightarrow> rune \<times> nat" where
  "DecodeRuneInString [] = (RuneError, 0)"
| "DecodeRuneInString (c0 # s) =
     (let s0 = (of_char c0 :: nat) in
      if s0 < 0x80 then (s0, 1)
      else if s0 < 0xC2 \<or> 0xF4 < s0 then (RuneError, 1)
      else if s0 < 0xE0 then
        (case s of
           c1 # _ \<Rightarrow>
             (let s1 = (of_char c1 :: nat) in
              if contByte 0x80 0xBF s1 then ((s0 mod 0x20) * 0x40 + s1 mod 0x40, 2)
              else (RuneError, 1))
         | _ \<Rightarrow> (RuneError, 1))
      else if s0 < 0xF0 then
        (case s of
           c1 # c2 # _ \<Rightarrow>
             (let s1 = (of_char c1 :: nat); s2 = (of_char c2 :: nat);
                  lo = (if s0 = 0xE0 then 0xA0 else 0x80);
                  hi = (if s0 = 0xED then 0x9F else 0xBF) in
              if contByte lo hi s1 \<and> contByte 0x80 0xBF s2
              then ((s0 mod 0x10) * 0x1000 + (s1 mod 0x40) * 0x40 + s2 mod 0x40, 3)
              else (RuneError, 1))
         | _ \<Rightarrow> (RuneError, 1))
      else
        (case s of
           c1 # c2 # c3 # _ \<Rightarrow>
             (let s1 = (of_char c1 :: nat); s2 = (of_char c2 :: nat);
                  s3 = (of_char c3 :: nat);
                  lo = (if s0 = 0xF0 then 0x90 else 0x80);
                  hi = (if s0 = 0xF4 then 0x8F else 0xBF) in
              if contByte lo hi s1 \<and> contByte 0x80 0xBF s2 \<and> contByte 0x80 0xBF s3
              then ((s0 mod 0x08) * 0x40000 + (s1 mod 0x40) * 0x1000
                      + (s2 mod 0x40) * 0x40 + s3 mod 0x40, 4)
              else (RuneError, 1))
         | _ \<Rightarrow> (RuneError, 1)))"

text \<open>
  The iteration \<open>for end, rune := range s\<close>: the runes of \<open>s\<close> in order, each with the
  bytes it was decoded from. On a non-empty string the width is at least 1, so the rest
  after the first rune is \<open>drop (width - 1)\<close> of the tail.
\<close>

fun runes :: "string \<Rightarrow> (rune \<times> string) list" where
  "runes [] = []"
| "runes (c # s) =
     (fst (DecodeRuneInString (c # s)), take (snd (DecodeRuneInString (c # s))) (c # s))
       # runes (drop (snd (DecodeRuneInString (c # s)) - 1) s)"

text \<open>\<open>unicode.IsSpace\<close>: the Latin-1 spaces, then the \<open>White_Space\<close> table.\<close>

definition IsSpace :: "rune \<Rightarrow> bool" where
  "IsSpace r \<longleftrightarrow>
     (if r \<le> 0xFF then r \<in> {0x09, 0x0A, 0x0B, 0x0C, 0x0D, 0x20, 0x85, 0xA0}
      else r = 0x1680 \<or> (0x2000 \<le> r \<and> r \<le> 0x200A) \<or> r = 0x2028 \<or> r = 0x2029
           \<or> r = 0x202F \<or> r = 0x205F \<or> r = 0x3000)"

text \<open>
  The scan of \<open>strings.FieldsFunc\<close>: \<open>cur\<close> holds the bytes of the field being read
  (the source keeps its start index, negative when no field is open), \<open>spans\<close> the
  fields already closed.
\<close>

fun fieldsLoop :: "(rune \<Rightarrow> bool) \<Rightarrow> (rune \<times> string) list \<Rightarrow> string option \<Rightarrow> string list
    \<Rightarrow> string list" where
  "fieldsLoop f [] cur spans = (case cur of None \<Rightarrow> spans | Some w \<Rightarrow> spans @ [w])"
| "fieldsLoop f ((r, bs) # rs) cur spans =
     (if f r then
        (case cur of
           None \<Rightarrow> fieldsLoop f rs None spans
         | Some w \<Rightarrow> fieldsLoop f rs None (spans @ [w]))
      else
        (case cur of
           None \<Rightarrow> fieldsLoop f rs (Some bs) spans
         | Some w \<Rightarrow> fieldsLoop f rs (Some (w @ bs)) spans))"

definition FieldsFunc :: "string \<Rightarrow> (rune \<Rightarrow> bool) \<Rightarrow> string list" where
  "FieldsFunc s f = fieldsLoop f (runes s) None []"

text \<open>
  \<open>strings.Fields\<close> is \<open>FieldsFunc\<close> with \<open>unicode.IsSpace\<close>; on a string of ASCII bytes
  only it takes a faster path over the bytes, with the same fields.
\<close>

definition Fields :: "string \<Rightarrow> string list" where
  "Fields s = FieldsFunc s IsSpace"

text \<open>
  \<open>strings.Count(s, sep)\<close> for a separator of one byte: the occurrences of the byte
  (named \<open>stringsCount\<close>: \<open>Count\<close> is a field of \<open>WordCount\<close> below).
\<close>

fun stringsCount :: "string \<Rightarrow> char \<Rightarrow> nat" where
  "stringsCount [] sep = 0"
| "stringsCount (c # s) sep = (if c = sep then Suc (stringsCount s sep) else stringsCount s sep)"

text \<open>
  \<open>strings.ToLower\<close>: on a string of ASCII bytes only, \<open>A..Z\<close> move to \<open>a..z\<close> and every
  other byte stays. Otherwise the result is \<open>strings.Map(unicode.ToLower, s)\<close>, which
  needs the Unicode case tables; they are not part of the repository, so that path is the
  parameter \<open>uni\<close>.
\<close>

definition lowerByte :: "char \<Rightarrow> char" where
  "lowerByte c =
     (if (0x41::nat) \<le> of_char c \<and> of_char c \<le> (0x5A::nat)
      then char_of (of_char c + (0x20::nat)) else c)"

definition ToLower :: "(string \<Rightarrow> string) \<Rightarrow> string \<Rightarrow> string" where
  "ToLower uni s =
     (if list_all (\<lambda>c. (of_char c :: nat) < 0x80) s then map lowerByte s else uni s)"

text \<open>
  \<open>filepath.Base\<close> with the separator \<open>/\<close>: the last element of the path, after the
  trailing separators are removed; \<open>.\<close> for the empty path, \<open>/\<close> for a path of
  separators only.
\<close>

definition Base :: "string \<Rightarrow> string" where
  "Base path =
     (if path = [] then ''.''
      else
        (let stripped = rev (dropWhile (\<lambda>c. c = CHR ''/'') (rev path));
             elem = rev (takeWhile (\<lambda>c. c \<noteq> CHR ''/'') (rev stripped))
         in if elem = [] then ''/'' else elem))"

section \<open>Data model (main.go)\<close>

text \<open>
  \<open>AnalysisResult.Data\<close> has the type \<open>any\<close>; the values stored in it are an \<open>int\<close>, a
  \<open>map[string]int\<close>, or nothing (the zero value of a freshly made slot). A Go \<open>int\<close> that
  counts words or lines of a string held in memory stays far below \<open>2^63\<close>, so it is an
  unbounded integer here. A map is a partial function; a slice is the list of its
  elements (a \<open>nil\<close> slice and an empty slice are both the empty list).
\<close>

datatype Data = NilData | IntData int | FreqData "string \<rightharpoonup> int"

record AnalysisResult =
  NameAnalyzer :: string
  Data :: Data

record FileAnalysisResult =
  FileName :: string
  Size :: int
  Results :: "AnalysisResult list"

text \<open>The interface \<open>Analyzer\<close>: its two methods.\<close>

record Analyzer =
  Analyze :: "string \<Rightarrow> AnalysisResult"
  Name :: string

definition zeroResult :: AnalysisResult where
  "zeroResult = \<lparr>NameAnalyzer = [], Data = NilData\<rparr>"

subsection \<open>The three analyzers\<close>

definition WordCount_Analyze :: "string \<Rightarrow> AnalysisResult" where
  "WordCount_Analyze content =
     (let words = Fields content
      in \<lparr>NameAnalyzer = ''word_count'', Data = IntData (int (length words))\<rparr>)"

definition WordCountAnalyzer :: Analyzer where
  "WordCountAnalyzer = \<lparr>Analyze = WordCount_Analyze, Name = ''word_count''\<rparr>"

definition LineCount_Analyze :: "string \<Rightarrow> AnalysisResult" where
  "LineCount_Analyze content =
     (let lines = int (stringsCount content (CHR 0x0A)) + 1
      in \<lparr>NameAnalyzer = ''line_count'', Data = IntData lines\<rparr>)"

definition LineCountAnalyzer :: Analyzer where
  "LineCountAnalyzer = \<lparr>Analyze = LineCount_Analyze, Name = ''line_count''\<rparr>"

text \<open>\<open>freq[k]++\<close>: a key that is absent reads as 0.\<close>

definition incr :: "(string \<rightharpoonup> int) \<Rightarrow> string \<Rightarrow> (string \<rightharpoonup> int)" where
  "incr freq k = freq(k \<mapsto> (case freq k of None \<Rightarrow> 0 | Some c \<Rightarrow> c) + 1)"

fun freqLoop :: "(string \<Rightarrow> string) \<Rightarrow> string list \<Rightarrow> (string \<rightharpoonup> int) \<Rightarrow> (string \<rightharpoonup> int)" where
  "freqLoop uni [] freq = freq"
| "freqLoop uni (word # ws) freq = freqLoop uni ws (incr freq (ToLower uni word))"

definition MostFrequentWords_Analyze :: "(string \<Rightarrow> string) \<Rightarrow> string \<Rightarrow> AnalysisResult" where
  "MostFrequentWords_Analyze uni content =
     (let freq = freqLoop uni (Fields content) Map.empty
      in \<lparr>NameAnalyzer = ''most_frequent_words'', Data = FreqData freq\<rparr>)"

definition MostFrequentWordsAnalyzer :: "(string \<Rightarrow> string) \<Rightarrow> Analyzer" where
  "MostFrequentWordsAnalyzer uni =
     \<lparr>Analyze = MostFrequentWords_Analyze uni, Name = ''most_frequent_words''\<rparr>"

section \<open>Reading a file (main.go)\<close>

text \<open>
  \<open>os.ReadFile\<close> and \<open>os.Stat\<close> are the operating system's answers for a path: the
  content or an error, the size in bytes or an error. The file system does not change
  while an analysis runs.
\<close>

datatype error = Error string

record os =
  ReadFile :: "string \<Rightarrow> error + string"
  Stat :: "string \<Rightarrow> error + int"

definition readFileContent :: "os \<Rightarrow> string \<Rightarrow> error + (string \<times> int)" where
  "readFileContent env path =
     (case ReadFile env path of
        Inl err \<Rightarrow> Inl err
      | Inr data \<Rightarrow>
          (case Stat env path of
             Inl err \<Rightarrow> Inl err
           | Inr sz \<Rightarrow> Inr (data, sz)))"

section \<open>AnalyzeSequential (analyze.go)\<close>

fun analyzeLoop :: "Analyzer list \<Rightarrow> string \<Rightarrow> AnalysisResult list \<Rightarrow> AnalysisResult list" where
  "analyzeLoop [] content analysisResults = analysisResults"
| "analyzeLoop (analyzer # rest) content analysisResults =
     analyzeLoop rest content (analysisResults @ [Analyze analyzer content])"

fun sequentialLoop :: "os \<Rightarrow> Analyzer list \<Rightarrow> string list \<Rightarrow> FileAnalysisResult list
    \<Rightarrow> FileAnalysisResult list" where
  "sequentialLoop env analyzers [] results = results"
| "sequentialLoop env analyzers (path # files) results =
     (case readFileContent env path of
        Inl err \<Rightarrow> sequentialLoop env analyzers files results
      | Inr (content, sz) \<Rightarrow>
          sequentialLoop env analyzers files
            (results @ [\<lparr>FileName = Base path, Size = sz,
                          Results = analyzeLoop analyzers content []\<rparr>]))"

text \<open>The pair returned: the results and the error, \<open>None\<close> for \<open>nil\<close>.\<close>

definition AnalyzeSequential :: "os \<Rightarrow> string list \<Rightarrow> Analyzer list
    \<Rightarrow> FileAnalysisResult list \<times> error option" where
  "AnalyzeSequential env files analyzers = (sequentialLoop env analyzers files [], None)"

section \<open>A worker (analyze.go and main.go)\<close>

text \<open>
  The body of a worker goroutine is the same in \<open>AnalyzeParallel\<close> and in \<open>main\<close>. A
  worker is
  \<^item> \<open>Receiving\<close>: at the head of its loop, waiting for a path;
  \<^item> \<open>Reading path\<close>: it holds a path and calls \<open>readFileContent\<close> next;
  \<^item> \<open>Analysing path sz content analysisResults running\<close>: one goroutine per analyzer
    has been started on the slots \<open>analysisResults\<close>; \<open>running\<close> lists the indices of
    the goroutines that have not finished (the counter of \<open>swg\<close> is its length);
  \<^item> \<open>Sending res\<close>: blocked on \<open>results <- res\<close>;
  \<^item> \<open>Done\<close>: the goroutine has returned (\<open>wg.Done()\<close>).

  The steps a worker takes on its own: \<open>Read\<close>, \<open>Task k\<close> (the goroutine of analyzer \<open>k\<close>
  writes \<open>analysisResults[k]\<close> and finishes) in any order, and \<open>Join\<close> (\<open>swg.Wait()\<close>
  returns and the bundle is built).
\<close>

datatype worker =
    Receiving
  | Reading string
  | Analysing string int string "AnalysisResult list" "nat list"
  | Sending FileAnalysisResult
  | Done

datatype local = Read | Task nat | Join

fun workerStep :: "os \<Rightarrow> Analyzer list \<Rightarrow> local \<Rightarrow> worker \<Rightarrow> worker option" where
  "workerStep env analyzers Read (Reading path) =
     Some (case readFileContent env path of
             Inl err \<Rightarrow> Receiving
           | Inr (content, sz) \<Rightarrow>
               Analysing path sz content
                 (replicate (length analyzers) zeroResult) [0..<length analyzers])"
| "workerStep env analyzers (Task k) (Analysing path sz content analysisResults running) =
     (if k \<in> set running
      then Some (Analysing path sz content
                   (analysisResults[k := Analyze (analyzers ! k) content]) (remove1 k running))
      else None)"
| "workerStep env analyzers Join (Analysing path sz content analysisResults running) =
     (if running = []
      then Some (Sending \<lparr>FileName = Base path, Size = sz, Results = analysisResults\<rparr>)
      else None)"
| "workerStep env analyzers l w = None"

section \<open>AnalyzeParallel (analyze.go)\<close>

text \<open>
  The goroutines of \<open>AnalyzeParallel\<close> as a transition system. Both channels are
  unbuffered, so a send and its receive are one step. The state:
  \<^item> \<open>toSend\<close>: the files the feeding goroutine has not sent yet;
  \<^item> \<open>pathsClosed\<close>, \<open>resultsClosed\<close>: the two channels are closed;
  \<^item> \<open>workers\<close>: the worker goroutines;
  \<^item> \<open>out\<close>: the slice the caller appends to;
  \<^item> \<open>returned\<close>: what the function has returned, once it has.

  The events: \<open>Send i\<close> (worker \<open>i\<close> receives the next path), \<open>Local i l\<close> (worker \<open>i\<close>
  takes the step \<open>l\<close>), \<open>Recv i\<close> (the caller receives the bundle of worker \<open>i\<close>),
  \<open>ClosePaths\<close>, \<open>Exit i\<close> (the range of worker \<open>i\<close> over the closed channel ends),
  \<open>CloseResults\<close> (\<open>wg.Wait()\<close> has returned) and \<open>Return\<close>. An event that is not enabled
  in a state has no successor (\<open>None\<close>).
\<close>

record pool =
  toSend :: "string list"
  pathsClosed :: bool
  workers :: "worker list"
  resultsClosed :: bool
  out :: "FileAnalysisResult list"
  returned :: "(FileAnalysisResult list \<times> error option) option"

datatype event =
    Send nat
  | Local nat local
  | Recv nat
  | ClosePaths
  | Exit nat
  | CloseResults
  | Return

fun step :: "os \<Rightarrow> Analyzer list \<Rightarrow> event \<Rightarrow> pool \<Rightarrow> pool option" where
  "step env analyzers (Send i) s =
     (case toSend s of
        [] \<Rightarrow> None
      | f # fs \<Rightarrow>
          if i < length (workers s) \<and> workers s ! i = Receiving
          then Some (s\<lparr>toSend := fs, workers := (workers s)[i := Reading f]\<rparr>)
          else None)"
| "step env analyzers (Local i l) s =
     (if i < length (workers s)
      then (case workerStep env analyzers l (workers s ! i) of
              None \<Rightarrow> None
            | Some w \<Rightarrow> Some (s\<lparr>workers := (workers s)[i := w]\<rparr>))
      else None)"
| "step env analyzers (Recv i) s =
     (if i < length (workers s) \<and> \<not> resultsClosed s \<and> returned s = None
      then (case workers s ! i of
              Sending r \<Rightarrow> Some (s\<lparr>out := out s @ [r], workers := (workers s)[i := Receiving]\<rparr>)
            | _ \<Rightarrow> None)
      else None)"
| "step env analyzers ClosePaths s =
     (if toSend s = [] \<and> \<not> pathsClosed s then Some (s\<lparr>pathsClosed := True\<rparr>) else None)"
| "step env analyzers (Exit i) s =
     (if i < length (workers s) \<and> workers s ! i = Receiving \<and> pathsClosed s
      then Some (s\<lparr>workers := (workers s)[i := Done]\<rparr>)
      else None)"
| "step env analyzers CloseResults s =
     (if pathsClosed s \<and> \<not> resultsClosed s \<and> list_all (\<lambda>w. w = Done) (workers s)
      then Some (s\<lparr>resultsClosed := True\<rparr>)
      else None)"
| "step env analyzers Return s =
     (if resultsClosed s \<and> returned s = None
      then Some (s\<lparr>returned := Some (out s, None)\<rparr>)
      else None)"

fun run :: "os \<Rightarrow> Analyzer list \<Rightarrow> event list \<Rightarrow> pool \<Rightarrow> pool option" where
  "run env analyzers [] s = Some s"
| "run env analyzers (e # es) s =
     (case step env analyzers e s of
        None \<Rightarrow> None
      | Some s' \<Rightarrow> run env analyzers es s')"

definition start :: "string list \<Rightarrow> int \<Rightarrow> pool" where
  "start files workerCount =
     \<lparr>toSend = files, pathsClosed = False, workers = replicate (nat workerCount) Receiving,
      resultsClosed = False, out = [], returned = None\<rparr>"

text \<open>
  \<open>AnalyzeParallel\<close> under a schedule (the order in which the runtime lets the goroutines
  move): the pair it returns, or \<open>None\<close> when the schedule is not an execution that
  reaches the \<open>return\<close>.
\<close>

definition AnalyzeParallel :: "os \<Rightarrow> string list \<Rightarrow> Analyzer list \<Rightarrow> int \<Rightarrow> event list
    \<Rightarrow> (FileAnalysisResult list \<times> error option) option" where
  "AnalyzeParallel env files analyzers workerCount schedule =
     (case run env analyzers schedule (start files workerCount) of
        None \<Rightarrow> None
      | Some s \<Rightarrow> returned s)"

section \<open>The interactive pipeline (main.go)\<close>

definition mainAnalyzers :: "(string \<Rightarrow> string) \<Rightarrow> Analyzer list" where
  "mainAnalyzers uni = [WordCountAnalyzer, LineCountAnalyzer, MostFrequentWordsAnalyzer uni]"

subsection \<open>The producer and the worker pool\<close>

text \<open>
  The producer goroutine, the workers and the goroutine that closes \<open>results\<close>, as a
  transition system. \<open>filePaths\<close> has a buffer of 100 paths; \<open>results\<close> is unbuffered and
  its receiver is the filter stage, so \<open>delivered\<close> is the sequence of bundles the filter
  stage has received. \<open>cancelled\<close> says that \<open>ctx.Done()\<close> is closed.

  The actions: \<open>Cancel\<close> (the interrupt handler calls \<open>cancel()\<close>); in the producer's
  \<open>select\<close>, \<open>Feed\<close> (the send into the buffer) and \<open>FeedCancelled\<close> (the case
  \<open><-ctx.Done()\<close>, the producer returns and its deferred \<open>close(filePaths)\<close> runs);
  \<open>FeedEnd\<close> (the producer's loop is over, \<open>close(filePaths)\<close>); in the \<open>select\<close> of
  worker \<open>i\<close>, \<open>Pull i\<close> (a path is received), \<open>PullClosed i\<close> (the receive reports the
  channel closed and empty, the worker returns) and \<open>PullCancelled i\<close> (the case
  \<open><-ctx.Done()\<close>, the worker returns); \<open>Work i l\<close> (worker \<open>i\<close> takes the step \<open>l\<close>);
  \<open>Push i\<close> (the statement \<open>results <- ...\<close> of worker \<open>i\<close> completes: the filter stage
  has received the bundle); \<open>CloseOut\<close> (\<open>wg.Wait()\<close> has returned, \<open>close(results)\<close>).
  When several cases of a \<open>select\<close> are ready, any of them may be taken.
\<close>

record pipeline =
  cancelled :: bool
  toFeed :: "string list"
  filePathsClosed :: bool
  filePaths :: "string list"
  poolWorkers :: "worker list"
  resultsDone :: bool
  delivered :: "FileAnalysisResult list"

datatype action =
    Cancel
  | Feed
  | FeedCancelled
  | FeedEnd
  | Pull nat
  | PullClosed nat
  | PullCancelled nat
  | Work nat local
  | Push nat
  | CloseOut

fun pipeStep :: "os \<Rightarrow> Analyzer list \<Rightarrow> action \<Rightarrow> pipeline \<Rightarrow> pipeline option" where
  "pipeStep env analyzers Cancel s =
     (if cancelled s then None else Some (s\<lparr>cancelled := True\<rparr>))"
| "pipeStep env analyzers Feed s =
     (case toFeed s of
        [] \<Rightarrow> None
      | file # fs \<Rightarrow>
          if \<not> filePathsClosed s \<and> length (filePaths s) < 100
          then Some (s\<lparr>toFeed := fs, filePaths := filePaths s @ [file]\<rparr>)
          else None)"
| "pipeStep env analyzers FeedCancelled s =
     (if cancelled s \<and> toFeed s \<noteq> [] \<and> \<not> filePathsClosed s
      then Some (s\<lparr>filePathsClosed := True\<rparr>)
      else None)"
| "pipeStep env analyzers FeedEnd s =
     (if toFeed s = [] \<and> \<not> filePathsClosed s
      then Some (s\<lparr>filePathsClosed := True\<rparr>)
      else None)"
| "pipeStep env analyzers (Pull i) s =
     (case filePaths s of
        [] \<Rightarrow> None
      | path # ps \<Rightarrow>
          if i < length (poolWorkers s) \<and> poolWorkers s ! i = Receiving
          then Some (s\<lparr>filePaths := ps, poolWorkers := (poolWorkers s)[i := Reading path]\<rparr>)
          else None)"
| "pipeStep env analyzers (PullClosed i) s =
     (if i < length (poolWorkers s) \<and> poolWorkers s ! i = Receiving
         \<and> filePaths s = [] \<and> filePathsClosed s
      then Some (s\<lparr>poolWorkers := (poolWorkers s)[i := Done]\<rparr>)
      else None)"
| "pipeStep env analyzers (PullCancelled i) s =
     (if i < length (poolWorkers s) \<and> poolWorkers s ! i = Receiving \<and> cancelled s
      then Some (s\<lparr>poolWorkers := (poolWorkers s)[i := Done]\<rparr>)
      else None)"
| "pipeStep env analyzers (Work i l) s =
     (if i < length (poolWorkers s)
      then (case workerStep env analyzers l (poolWorkers s ! i) of
              None \<Rightarrow> None
            | Some w \<Rightarrow> Some (s\<lparr>poolWorkers := (poolWorkers s)[i := w]\<rparr>))
      else None)"
| "pipeStep env analyzers (Push i) s =
     (if i < length (poolWorkers s) \<and> \<not> resultsDone s
      then (case poolWorkers s ! i of
              Sending r \<Rightarrow>
                Some (s\<lparr>delivered := delivered s @ [r],
                         poolWorkers := (poolWorkers s)[i := Receiving]\<rparr>)
            | _ \<Rightarrow> None)
      else None)"
| "pipeStep env analyzers CloseOut s =
     (if \<not> resultsDone s \<and> list_all (\<lambda>w. w = Done) (poolWorkers s)
      then Some (s\<lparr>resultsDone := True\<rparr>)
      else None)"

fun pipeRun :: "os \<Rightarrow> Analyzer list \<Rightarrow> action list \<Rightarrow> pipeline \<Rightarrow> pipeline option" where
  "pipeRun env analyzers [] s = Some s"
| "pipeRun env analyzers (a # as) s =
     (case pipeStep env analyzers a s of
        None \<Rightarrow> None
      | Some s' \<Rightarrow> pipeRun env analyzers as s')"

definition pipeStart :: "string list \<Rightarrow> int \<Rightarrow> pipeline" where
  "pipeStart files workerCount =
     \<lparr>cancelled = False, toFeed = files, filePathsClosed = False, filePaths = [],
      poolWorkers = replicate (nat workerCount) Receiving, resultsDone = False,
      delivered = []\<rparr>"

subsection \<open>The filter stage\<close>

text \<open>
  The filter goroutine reads \<open>results\<close> until it is closed, so it is a loop over the
  sequence of bundles delivered. A type assertion \<open>r.Data.(int)\<close> on a value that is not
  an \<open>int\<close> panics.
\<close>

datatype panic = InterfaceConversion

fun showLoop :: "AnalysisResult list \<Rightarrow> panic + bool" where
  "showLoop [] = Inr True"
| "showLoop (r # rs) =
     (if NameAnalyzer r = ''word_count'' then
        (case Data r of
           IntData n \<Rightarrow> if n < 2 then Inr False else showLoop rs
         | _ \<Rightarrow> Inl InterfaceConversion)
      else showLoop rs)"

fun filterLoop :: "FileAnalysisResult list \<Rightarrow> FileAnalysisResult list
    \<Rightarrow> panic + FileAnalysisResult list" where
  "filterLoop [] filteredResults = Inr filteredResults"
| "filterLoop (res # results) filteredResults =
     (case showLoop (Results res) of
        Inl p \<Rightarrow> Inl p
      | Inr shw \<Rightarrow> filterLoop results (if shw then filteredResults @ [res] else filteredResults))"

definition filterStage :: "FileAnalysisResult list \<Rightarrow> panic + FileAnalysisResult list" where
  "filterStage results = filterLoop results []"

subsection \<open>The aggregator\<close>

text \<open>
  The variables of the collecting loop (\<open>gm\<close> stands for \<open>globalMap\<close> where the name
  is taken by the field). A \<open>range\<close> over a map visits its entries in an
  order the runtime chooses; \<open>ord\<close> gives, for a map, the entries in the order visited.
\<close>

record totals =
  totalWords :: int
  totalLines :: int
  globalMap :: "string \<rightharpoonup> int"

type_synonym rangeOrder = "(string \<rightharpoonup> int) \<Rightarrow> (string \<times> int) list"

definition get0 :: "(string \<rightharpoonup> int) \<Rightarrow> string \<Rightarrow> int" where
  "get0 m k = (case m k of None \<Rightarrow> 0 | Some c \<Rightarrow> c)"

fun mergeLoop :: "(string \<times> int) list \<Rightarrow> (string \<rightharpoonup> int) \<Rightarrow> (string \<rightharpoonup> int)" where
  "mergeLoop [] gm = gm"
| "mergeLoop ((word, cnt) # entries) gm =
     mergeLoop entries (gm(word \<mapsto> get0 gm word + cnt))"

fun resultsLoop :: "rangeOrder \<Rightarrow> AnalysisResult list \<Rightarrow> totals \<Rightarrow> panic + totals" where
  "resultsLoop ord [] t = Inr t"
| "resultsLoop ord (res # rs) t =
     (if NameAnalyzer res = ''word_count'' then
        (case Data res of
           IntData n \<Rightarrow> resultsLoop ord rs (t\<lparr>totalWords := totalWords t + n\<rparr>)
         | _ \<Rightarrow> Inl InterfaceConversion)
      else if NameAnalyzer res = ''line_count'' then
        (case Data res of
           IntData n \<Rightarrow> resultsLoop ord rs (t\<lparr>totalLines := totalLines t + n\<rparr>)
         | _ \<Rightarrow> Inl InterfaceConversion)
      else if NameAnalyzer res = ''most_frequent_words'' then
        (case Data res of
           FreqData freq \<Rightarrow>
             resultsLoop ord rs (t\<lparr>globalMap := mergeLoop (ord freq) (globalMap t)\<rparr>)
         | _ \<Rightarrow> Inl InterfaceConversion)
      else resultsLoop ord rs t)"

fun aggregateLoop :: "rangeOrder \<Rightarrow> FileAnalysisResult list \<Rightarrow> totals \<Rightarrow> panic + totals" where
  "aggregateLoop ord [] t = Inr t"
| "aggregateLoop ord (result # filteredResults) t =
     (case resultsLoop ord (Results result) t of
        Inl p \<Rightarrow> Inl p
      | Inr t' \<Rightarrow> aggregateLoop ord filteredResults t')"

definition aggregate :: "rangeOrder \<Rightarrow> FileAnalysisResult list \<Rightarrow> panic + totals" where
  "aggregate ord filteredResults =
     aggregateLoop ord filteredResults \<lparr>totalWords = 0, totalLines = 0, globalMap = Map.empty\<rparr>"

subsection \<open>The most frequent words\<close>

text \<open>
  \<open>sort.Slice\<close> belongs to the Go standard library: it sorts by \<open>less\<close> and promises
  nothing on the order of elements that \<open>less\<close> does not separate. The model sorts by
  insertion and leaves a sorted slice as it is; as the entries come from a \<open>range\<close> over
  the map, in any order, every sorted arrangement of the entries is a result.
\<close>

record WordCount =
  Word :: string
  Count :: int

fun insertLess :: "('a \<Rightarrow> 'a \<Rightarrow> bool) \<Rightarrow> 'a \<Rightarrow> 'a list \<Rightarrow> 'a list" where
  "insertLess lessFn x [] = [x]"
| "insertLess lessFn x (y # ys) =
     (if lessFn y x then y # insertLess lessFn x ys else x # y # ys)"

fun sortSlice :: "('a \<Rightarrow> 'a \<Rightarrow> bool) \<Rightarrow> 'a list \<Rightarrow> 'a list" where
  "sortSlice lessFn [] = []"
| "sortSlice lessFn (x # xs) = insertLess lessFn x (sortSlice lessFn xs)"

text \<open>The lines printed for \<open>-top-words N\<close>: the word and its count, in order.\<close>

definition topWordsReport :: "rangeOrder \<Rightarrow> (string \<rightharpoonup> int) \<Rightarrow> int \<Rightarrow> WordCount list" where
  "topWordsReport ord gm topWords =
     (if topWords > 0 then
        (let words = sortSlice (\<lambda>a b. Count a > Count b)
                       (map (\<lambda>(w, c). \<lparr>Word = w, Count = c\<rparr>) (ord gm));
             n = (if topWords > int (length words) then int (length words) else topWords)
         in take (nat n) words)
      else [])"

section \<open>Specifications\<close>

subsection \<open>Tokens of a string\<close>

text \<open>
  Splitting at separators: the pieces between the separators, empty ones included. The
  tokens of a string are the non-empty pieces of its rune sequence between white space,
  each given by its bytes.
\<close>

fun splitOn :: "('a \<Rightarrow> bool) \<Rightarrow> 'a list \<Rightarrow> 'a list list" where
  "splitOn sep [] = [[]]"
| "splitOn sep (x # xs) =
     (if sep x then [] # splitOn sep xs
      else (x # hd (splitOn sep xs)) # tl (splitOn sep xs))"

definition bytesOf :: "(rune \<times> string) list \<Rightarrow> string" where
  "bytesOf t = concat (map snd t)"

definition whitespaceTokens :: "string \<Rightarrow> string list" where
  "whitespaceTokens s =
     map bytesOf (filter (\<lambda>t. t \<noteq> []) (splitOn (\<lambda>rb. IsSpace (fst rb)) (runes s)))"

subsection \<open>The bundle of a file\<close>

text \<open>
  The bundle of a file that was read: its base name, its size and, in the order of the
  analyzers, the result of each analyzer on the content. \<open>bundlesOf\<close> lists, in the order
  of the files, the bundles of the files that can be read.
\<close>

definition mkBundle :: "Analyzer list \<Rightarrow> string \<Rightarrow> int \<Rightarrow> string \<Rightarrow> FileAnalysisResult" where
  "mkBundle analyzers path sz content =
     \<lparr>FileName = Base path, Size = sz, Results = map (\<lambda>a. Analyze a content) analyzers\<rparr>"

definition bundlesOf :: "os \<Rightarrow> Analyzer list \<Rightarrow> string list \<Rightarrow> FileAnalysisResult list" where
  "bundlesOf env analyzers files =
     List.map_filter
       (\<lambda>path. case readFileContent env path of
                 Inl err \<Rightarrow> None
               | Inr (content, sz) \<Rightarrow> Some (mkBundle analyzers path sz content))
       files"

text \<open>
  A bundle is complete for the configured analyzers when it belongs to a file that was
  read and holds, at each index, the result of the analyzer at that index on the content
  of the file.
\<close>

definition complete :: "os \<Rightarrow> Analyzer list \<Rightarrow> FileAnalysisResult \<Rightarrow> bool" where
  "complete env analyzers r \<longleftrightarrow>
     (\<exists>path content sz.
        readFileContent env path = Inr (content, sz) \<and> FileName r = Base path \<and> Size r = sz
        \<and> length (Results r) = length analyzers
        \<and> (\<forall>i<length analyzers. Results r ! i = Analyze (analyzers ! i) content))"

subsection \<open>The WordCount result of a bundle\<close>

text \<open>
  The WordCount result of a bundle is the value of its one result named \<open>word_count\<close>.
\<close>

definition wordCountOf :: "FileAnalysisResult \<Rightarrow> int option" where
  "wordCountOf res =
     (case filter (\<lambda>r. NameAnalyzer r = ''word_count'') (Results res) of
        [r] \<Rightarrow> (case Data r of IntData n \<Rightarrow> Some n | _ \<Rightarrow> None)
      | _ \<Rightarrow> None)"

definition atLeastTwoWords :: "FileAnalysisResult \<Rightarrow> bool" where
  "atLeastTwoWords res = (case wordCountOf res of None \<Rightarrow> False | Some n \<Rightarrow> 2 \<le> n)"

subsection \<open>Orders of visit of a map\<close>

text \<open>
  \<open>ranges entries m\<close>: \<open>entries\<close> is an order in which a \<open>range\<close> over the map \<open>m\<close> can
  visit it, every entry once.
\<close>

definition ranges :: "(string \<times> int) list \<Rightarrow> (string \<rightharpoonup> int) \<Rightarrow> bool" where
  "ranges entries m \<longleftrightarrow> distinct (map fst entries) \<and> map_of entries = m"

subsection \<open>What the aggregator adds for a file\<close>

text \<open>
  \<open>mergeInto gm freq\<close> is the global map after \<open>globalMap[word] += count\<close> for every
  entry of \<open>freq\<close>. \<open>wordFrequencies uni content\<close> sends each lower-cased token of the
  content to its number of occurrences. A file of the interactive pipeline is given by its
  path, its size and its content; \<open>mainBundle\<close> is its bundle, and \<open>addFile\<close> adds to the
  totals its number of words, its number of lines and its word frequencies.
\<close>

definition mergeInto :: "(string \<rightharpoonup> int) \<Rightarrow> (string \<rightharpoonup> int) \<Rightarrow> (string \<rightharpoonup> int)" where
  "mergeInto gm freq =
     (\<lambda>word. case freq word of None \<Rightarrow> gm word | Some cnt \<Rightarrow> Some (get0 gm word + cnt))"

definition wordFrequencies :: "(string \<Rightarrow> string) \<Rightarrow> string \<Rightarrow> (string \<rightharpoonup> int)" where
  "wordFrequencies uni content =
     (\<lambda>k. if k \<in> set (map (ToLower uni) (whitespaceTokens content))
          then Some (int (count_list (map (ToLower uni) (whitespaceTokens content)) k))
          else None)"

definition mainBundle :: "(string \<Rightarrow> string) \<Rightarrow> string \<times> int \<times> string \<Rightarrow> FileAnalysisResult" where
  "mainBundle uni f =
     (case f of (path, sz, content) \<Rightarrow> mkBundle (mainAnalyzers uni) path sz content)"

definition addFile :: "(string \<Rightarrow> string) \<Rightarrow> totals \<Rightarrow> string \<times> int \<times> string \<Rightarrow> totals" where
  "addFile uni t f =
     (case f of (path, sz, content) \<Rightarrow>
        t\<lparr>totalWords := totalWords t + int (length (whitespaceTokens content)),
          totalLines := totalLines t + (int (length (filter (\<lambda>c. c = CHR 0x0A) content)) + 1),
          globalMap := mergeInto (globalMap t) (wordFrequencies uni content)\<rparr>)"

section \<open>Invariants\<close>

subsection \<open>Workers\<close>

text \<open>
  What a worker holds of the final result: the bundle of the file it works on, if that
  file can be read. A worker is well formed when the file it analyses was read with the
  content and size it carries, every analyzer goroutine that has finished has written its
  own slot, and the bundle it sends is the bundle of a file.
\<close>

fun holding :: "os \<Rightarrow> Analyzer list \<Rightarrow> worker \<Rightarrow> FileAnalysisResult multiset" where
  "holding env as (Reading p) = mset (bundlesOf env as [p])"
| "holding env as (Analysing p sz c slots running) = {#mkBundle as p sz c#}"
| "holding env as (Sending r) = {#r#}"
| "holding env as w = {#}"

fun wellFormed :: "os \<Rightarrow> Analyzer list \<Rightarrow> worker \<Rightarrow> bool" where
  "wellFormed env as (Analysing p sz c slots running) \<longleftrightarrow>
     readFileContent env p = Inr (c, sz) \<and> length slots = length as \<and> distinct running
     \<and> set running \<subseteq> {..<length as}
     \<and> (\<forall>k<length as. k \<notin> set running \<longrightarrow> slots ! k = Analyze (as ! k) c)"
| "wellFormed env as (Sending r) \<longleftrightarrow>
     (\<exists>p c sz. readFileContent env p = Inr (c, sz) \<and> r = mkBundle as p sz c)"
| "wellFormed env as w \<longleftrightarrow> True"

subsection \<open>The pool of AnalyzeParallel\<close>

text \<open>
  The invariant of the pool: the channels are closed in the order of the source, a
  worker has returned only after \<open>filePaths\<close> was closed, and the bundles received, the
  bundles the workers hold and the bundles of the files still to send add up to the
  bundles of all the files. The rank of a state bounds the number of steps left.
\<close>

definition poolInv :: "os \<Rightarrow> Analyzer list \<Rightarrow> string list \<Rightarrow> pool \<Rightarrow> bool" where
  "poolInv env as files s \<longleftrightarrow>
     (pathsClosed s \<longrightarrow> toSend s = []) \<and>
     (Done \<in> set (workers s) \<longrightarrow> pathsClosed s) \<and>
     (resultsClosed s \<longrightarrow> pathsClosed s \<and> list_all (\<lambda>w. w = Done) (workers s)) \<and>
     (case returned s of None \<Rightarrow> True | Some ret \<Rightarrow> resultsClosed s \<and> ret = (out s, None)) \<and>
     list_all (wellFormed env as) (workers s) \<and>
     mset (out s) + sum_list (map (holding env as) (workers s)) + mset (bundlesOf env as (toSend s))
       = mset (bundlesOf env as files)"

fun wrank :: "nat \<Rightarrow> worker \<Rightarrow> nat" where
  "wrank n Done = 0"
| "wrank n Receiving = 1"
| "wrank n (Sending r) = 2"
| "wrank n (Analysing p sz c slots running) = 3 + length running"
| "wrank n (Reading p) = n + 4"

definition rank :: "nat \<Rightarrow> pool \<Rightarrow> nat" where
  "rank n s = length (toSend s) * (n + 5) + sum_list (map (wrank n) (workers s))
      + (if pathsClosed s then 0 else 1) + (if resultsClosed s then 0 else 1)
      + (if returned s = None then 1 else 0)"

subsection \<open>The interactive pool\<close>

text \<open>
  The workers are well formed and every bundle delivered is the bundle of a file; once
  \<open>results\<close> is closed every worker has returned.
\<close>

definition pipeInv :: "os \<Rightarrow> Analyzer list \<Rightarrow> pipeline \<Rightarrow> bool" where
  "pipeInv env as s \<longleftrightarrow>
     list_all (wellFormed env as) (poolWorkers s)
     \<and> list_all (\<lambda>r. wellFormed env as (Sending r)) (delivered s)"

definition closeInv :: "pipeline \<Rightarrow> bool" where
  "closeInv s \<longleftrightarrow> (resultsDone s \<longrightarrow> list_all (\<lambda>w. w = Done) (poolWorkers s))"

section \<open>Example inputs\<close>

text \<open>A file system with two files, and the analyzers of the test in analyze_test.go.\<close>

definition twoFiles :: os where
  "twoFiles =
     \<lparr>ReadFile = (\<lambda>path. if path = ''/tmp/a.txt'' then Inr ''x y''
                        else if path = ''/tmp/b.txt'' then Inr ''z''
                        else Inl (Error ''no such file'')),
      Stat = (\<lambda>path. if path = ''/tmp/a.txt'' then Inr 3
                    else if path = ''/tmp/b.txt'' then Inr 1
                    else Inl (Error ''no such file''))\<rparr>"

definition testAnalyzers :: "Analyzer list" where
  "testAnalyzers = [WordCountAnalyzer, LineCountAnalyzer]"

text \<open>
  A schedule of \<open>AnalyzeParallel\<close> on the two files with two workers: worker 1 takes the
  second file and delivers first; the analyzer goroutines finish in different orders.
\<close>

definition interleaved :: "event list" where
  "interleaved =
     [Send 0, Send 1, Local 1 Read, Local 0 Read, Local 1 (Task 1), Local 1 (Task 0),
      Local 0 (Task 0), Local 1 Join, Recv 1, Local 0 (Task 1), Local 0 Join, ClosePaths,
      Exit 1, Recv 0, Exit 0, CloseResults, Return]"

text \<open>A file system on which every read fails, and a schedule of one worker on it.\<close>

definition noFiles :: os where
  "noFiles =
     \<lparr>ReadFile = (\<lambda>path. Inl (Error ''no such file'')),
      Stat = (\<lambda>path. Inl (Error ''no such file''))\<rparr>"

definition oneWorker :: "event list" where
  "oneWorker =
     [Send 0, Local 0 Read, Send 0, Local 0 Read, ClosePaths, Exit 0, CloseResults, Return]"

text \<open>
  A schedule of the interactive pool on the two files with two workers. The files are
  ASCII, so the analyzers never take the Unicode path of \<open>strings.ToLower\<close>; the
  identity stands for it.
\<close>

definition pipeInterleaved :: "action list" where
  "pipeInterleaved =
     [Feed, Feed, Pull 1, Pull 0, Work 1 Read, Work 0 Read, Work 0 (Task 2), Work 1 (Task 0),
      Work 1 (Task 2), Work 1 (Task 1), Work 1 Join, Push 1, Work 0 (Task 0), Work 0 (Task 1),
      Work 0 Join, Push 0, FeedEnd, PullClosed 0, PullClosed 1, CloseOut]"

text \<open>
  The interactive pool with one worker on the first file: the signal fires while the
  worker is blocked on its push. \<open>blockedOnPush\<close> is the state reached.
\<close>

definition cancelDuringPush :: "action list" where
  "cancelDuringPush =
     [Feed, Pull 0, Work 0 Read, Work 0 (Task 2), Work 0 (Task 0), Work 0 (Task 1),
      Work 0 Join, Cancel]"

definition blockedOnPush :: pipeline where
  "blockedOnPush =
     \<lparr>cancelled = True, toFeed = [], filePathsClosed = False, filePaths = [],
      poolWorkers = [Sending (mkBundle (mainAnalyzers (\<lambda>s. s)) ''/tmp/a.txt'' 3 ''x y'')],
      resultsDone = False, delivered = []\<rparr>"

text \<open>
  A bundle that holds a frequency map only, and an order of visit for the three maps of
  the aggregation example.
\<close>

definition freqBundle :: "string \<Rightarrow> (string \<rightharpoonup> int) \<Rightarrow> FileAnalysisResult" where
  "freqBundle name freq =
     \<lparr>FileName = name, Size = 0,
      Results = [\<lparr>NameAnalyzer = ''most_frequent_words'', Data = FreqData freq\<rparr>]\<rparr>"

definition someOrder :: rangeOrder where
  "someOrder m =
     (if m ''b'' = Some 2 \<and> m ''a'' = Some 1 then [(''b'', 2), (''a'', 1)]
      else if m ''a'' = Some 3 then [(''a'', 3)]
      else [(''b'', 2), (''a'', 4)])"

text \<open>
  An order of visit for the maps of the two files of \<open>twoFiles\<close> and of their sum.
\<close>

definition visitOrder :: rangeOrder where
  "visitOrder m =
     (if m ''z'' = Some 1 \<and> m ''x'' = Some 1 then [(''z'', 1), (''y'', 1), (''x'', 1)]
      else if m ''x'' = Some 1 then [(''y'', 1), (''x'', 1)]
      else [(''z'', 1)])"

section \<open>Properties\<close>

subsection \<open>The analyzers\<close>

lemma splitOn_nonempty: "splitOn sep xs \<noteq> []"
  by (induction xs) auto

lemma fieldsLoop_tokens:
  "fieldsLoop f rs None spans =
     spans @ map bytesOf (filter (\<lambda>t. t \<noteq> []) (splitOn (\<lambda>rb. f (fst rb)) rs))"
  "fieldsLoop f rs (Some w) spans =
     spans @ (w @ bytesOf (hd (splitOn (\<lambda>rb. f (fst rb)) rs)))
       # map bytesOf (filter (\<lambda>t. t \<noteq> []) (tl (splitOn (\<lambda>rb. f (fst rb)) rs)))"
proof (induction rs arbitrary: w spans)
  case Nil
  { case 1 show ?case by (simp add: bytesOf_def) }
  { case 2 show ?case by (simp add: bytesOf_def) }
next
  case (Cons x rs)
  obtain r bs where x: "x = (r, bs)" by (cases x)
  { case 1 show ?case using Cons.IH by (simp add: x bytesOf_def) }
  { case 2 show ?case using Cons.IH by (simp add: x bytesOf_def) }
qed

lemma Fields_tokens: "Fields s = whitespaceTokens s"
  by (simp add: Fields_def FieldsFunc_def whitespaceTokens_def fieldsLoop_tokens(1))

lemma freqLoop_count:
  "freqLoop uni ws freq k =
     (if k \<in> set (map (ToLower uni) ws)
      then Some ((case freq k of None \<Rightarrow> 0 | Some c \<Rightarrow> c)
                  + int (count_list (map (ToLower uni) ws) k))
      else freq k)"
  by (induction ws arbitrary: freq) (auto simp: incr_def)

lemma Count_filter: "stringsCount s c = length (filter (\<lambda>x. x = c) s)"
  by (induction s) auto

lemma Fields_hello_world:
  "Fields ''hello world\<newline>hello go'' = [''hello'', ''world'', ''hello'', ''go'']"
  by code_simp

lemma Fields_Hello: "Fields ''Hello hello WORLD'' = [''Hello'', ''hello'', ''WORLD'']"
  by code_simp

lemma ToLower_Hello:
  "map (ToLower uni) [''Hello'', ''hello'', ''WORLD''] = [''hello'', ''hello'', ''world'']"
proof -
  have "map lowerByte ''Hello'' = ''hello''" "map lowerByte ''hello'' = ''hello''"
    "map lowerByte ''WORLD'' = ''world''"
    by code_simp+
  then show ?thesis by (simp add: ToLower_def)
qed

text \<open>
  C6. For every content, the WordCount analyzer returns the number of non-empty tokens
  obtained by splitting the content at white space; on \<open>hello world\<newline>hello go\<close> it
  returns 4.
\<close>

theorem WordCount_counts_tokens:
  "Analyze WordCountAnalyzer content =
     \<lparr>NameAnalyzer = ''word_count'',
      Data = IntData (int (length (filter (\<lambda>t. t \<noteq> [])
               (splitOn (\<lambda>rb. IsSpace (fst rb)) (runes content)))))\<rparr>
   \<and> Analyze WordCountAnalyzer ''hello world\<newline>hello go''
       = \<lparr>NameAnalyzer = ''word_count'', Data = IntData 4\<rparr>"
proof
  show "Analyze WordCountAnalyzer content =
     \<lparr>NameAnalyzer = ''word_count'',
      Data = IntData (int (length (filter (\<lambda>t. t \<noteq> [])
               (splitOn (\<lambda>rb. IsSpace (fst rb)) (runes content)))))\<rparr>"
    by (simp add: WordCountAnalyzer_def WordCount_Analyze_def Fields_tokens whitespaceTokens_def)
  show "Analyze WordCountAnalyzer ''hello world\<newline>hello go''
       = \<lparr>NameAnalyzer = ''word_count'', Data = IntData 4\<rparr>"
    by (simp add: WordCountAnalyzer_def WordCount_Analyze_def Fields_hello_world)
qed

text \<open>
  C7. For every content, the LineCount analyzer returns the number of newline characters
  plus 1, which is at least 1; on the empty content it returns 1, and on
  \<open>hello world\<newline>hello go\<close> it returns 2.
\<close>

theorem LineCount_newlines_plus_one:
  "(\<exists>n. Analyze LineCountAnalyzer content = \<lparr>NameAnalyzer = ''line_count'', Data = IntData n\<rparr>
        \<and> n = int (length (filter (\<lambda>c. c = CHR 0x0A) content)) + 1 \<and> 1 \<le> n)
   \<and> Analyze LineCountAnalyzer [] = \<lparr>NameAnalyzer = ''line_count'', Data = IntData 1\<rparr>
   \<and> Analyze LineCountAnalyzer ''hello world\<newline>hello go''
       = \<lparr>NameAnalyzer = ''line_count'', Data = IntData 2\<rparr>"
  by (simp add: LineCountAnalyzer_def LineCount_Analyze_def Count_filter)

text \<open>
  C8. For every content, the WordFrequency analyzer returns the map that sends each
  lower-cased token of the content to the number of tokens with that lower-cased form,
  and has no other key; on \<open>Hello hello WORLD\<close> it returns \<open>hello \<mapsto> 2, world \<mapsto> 1\<close>.
\<close>

theorem WordFrequency_counts_lowercased_tokens:
  "Analyze (MostFrequentWordsAnalyzer uni) content =
     \<lparr>NameAnalyzer = ''most_frequent_words'',
      Data = FreqData (\<lambda>k. if k \<in> set (map (ToLower uni) (whitespaceTokens content))
                           then Some (int (count_list (map (ToLower uni) (whitespaceTokens content)) k))
                           else None)\<rparr>
   \<and> Analyze (MostFrequentWordsAnalyzer uni) ''Hello hello WORLD''
       = \<lparr>NameAnalyzer = ''most_frequent_words'',
          Data = FreqData [''hello'' \<mapsto> 2, ''world'' \<mapsto> 1]\<rparr>"
proof
  have "freqLoop uni (Fields content) Map.empty
      = (\<lambda>k. if k \<in> set (map (ToLower uni) (whitespaceTokens content))
              then Some (int (count_list (map (ToLower uni) (whitespaceTokens content)) k))
              else None)"
    by (rule ext) (simp add: freqLoop_count Fields_tokens)
  then show "Analyze (MostFrequentWordsAnalyzer uni) content =
     \<lparr>NameAnalyzer = ''most_frequent_words'',
      Data = FreqData (\<lambda>k. if k \<in> set (map (ToLower uni) (whitespaceTokens content))
                           then Some (int (count_list (map (ToLower uni) (whitespaceTokens content)) k))
                           else None)\<rparr>"
    by (simp add: MostFrequentWordsAnalyzer_def MostFrequentWords_Analyze_def)
  have "freqLoop uni (Fields ''Hello hello WORLD'') Map.empty = [''hello'' \<mapsto> 2, ''world'' \<mapsto> 1]"
    unfolding Fields_Hello by (rule ext) (simp only: freqLoop_count ToLower_Hello, simp)
  then show "Analyze (MostFrequentWordsAnalyzer uni) ''Hello hello WORLD''
       = \<lparr>NameAnalyzer = ''most_frequent_words'',
          Data = FreqData [''hello'' \<mapsto> 2, ''world'' \<mapsto> 1]\<rparr>"
    by (simp add: MostFrequentWordsAnalyzer_def MostFrequentWords_Analyze_def)
qed


subsection \<open>The sequential loop and the bundles of the files\<close>

lemma analyzeLoop_map: "analyzeLoop as c acc = acc @ map (\<lambda>a. Analyze a c) as"
  by (induction as arbitrary: acc) auto

lemma bundlesOf_Cons:
  "bundlesOf env as (p # ps) =
     (case readFileContent env p of Inl e \<Rightarrow> [] | Inr (c, sz) \<Rightarrow> [mkBundle as p sz c]) @ bundlesOf env as ps"
  by (auto simp: bundlesOf_def List.map_filter_simps split: sum.splits)

lemma bundlesOf_Nil: "bundlesOf env as [] = []"
  by (simp add: bundlesOf_def List.map_filter_simps)

lemma sequentialLoop_bundles:
  "sequentialLoop env as files acc = acc @ bundlesOf env as files"
  by (induction files arbitrary: acc)
     (auto simp: bundlesOf_Cons bundlesOf_Nil mkBundle_def analyzeLoop_map split: sum.splits)

subsection \<open>Steps of a worker\<close>

lemma sum_list_map_update:
  fixes f :: "'a \<Rightarrow> 'b::comm_monoid_add"
  shows "i < length xs \<Longrightarrow> sum_list (map f (xs[i := y])) + f (xs ! i) = sum_list (map f xs) + f y"
proof (induction xs arbitrary: i)
  case Nil
  then show ?case by simp
next
  case (Cons x xs)
  show ?case
  proof (cases i)
    case 0
    then show ?thesis by (simp add: ac_simps)
  next
    case (Suc j)
    with Cons.prems have "j < length xs" by simp
    from Cons.IH [OF this] show ?thesis
      by (simp add: Suc add.assoc)
  qed
qed

lemma list_all_update: "list_all P xs \<Longrightarrow> P y \<Longrightarrow> list_all P (xs[i := y])"
  by (induction xs arbitrary: i) (auto split: nat.splits)

lemma slots_complete:
  assumes "length slots = length as" and "\<forall>k<length as. slots ! k = Analyze (as ! k) c"
  shows "slots = map (\<lambda>a. Analyze a c) as"
  using assms by (simp add: list_eq_iff_nth_eq)

lemma workerStep_wellFormed:
  "workerStep env as l w = Some w' \<Longrightarrow> wellFormed env as w \<Longrightarrow> wellFormed env as w'"
proof (induction env as l w rule: workerStep.induct)
  case (1 env analyzers path)
  then show ?case by (auto split: sum.splits)
next
  case (2 env analyzers k path sz content analysisResults running)
  from 2 have k: "k \<in> set running"
    and w': "w' = Analysing path sz content
                (analysisResults[k := Analyze (analyzers ! k) content]) (remove1 k running)"
    by (auto split: if_splits)
  from 2 have wf: "readFileContent env path = Inr (content, sz)"
    "length analysisResults = length analyzers" "distinct running"
    "set running \<subseteq> {..<length analyzers}"
    "\<forall>j<length analyzers. j \<notin> set running \<longrightarrow> analysisResults ! j = Analyze (analyzers ! j) content"
    by auto
  have "set (remove1 k running) \<subseteq> {..<length analyzers}"
    using wf(4) set_remove1_subset [of k running] by blast
  moreover have "\<forall>j<length analyzers. j \<notin> set (remove1 k running) \<longrightarrow>
      analysisResults[k := Analyze (analyzers ! k) content] ! j = Analyze (analyzers ! j) content"
  proof (intro allI impI)
    fix j assume j: "j < length analyzers" "j \<notin> set (remove1 k running)"
    show "analysisResults[k := Analyze (analyzers ! k) content] ! j = Analyze (analyzers ! j) content"
    proof (cases "j = k")
      case True
      with j wf(2) show ?thesis by simp
    next
      case False
      with j(2) wf(3) have "j \<notin> set running" by simp
      with wf(5) j(1) False show ?thesis by simp
    qed
  qed
  ultimately show ?case using wf w' by simp
next
  case (3 env analyzers path sz content analysisResults running)
  from 3 have r: "running = []"
    and w': "w' = Sending \<lparr>FileName = Base path, Size = sz, Results = analysisResults\<rparr>"
    by (auto split: if_splits)
  from 3 r have "analysisResults = map (\<lambda>a. Analyze a content) analyzers"
    by (intro slots_complete) auto
  moreover from 3 have "readFileContent env path = Inr (content, sz)" by simp
  ultimately have "\<exists>p c s. readFileContent env p = Inr (c, s) \<and>
      \<lparr>FileName = Base path, Size = sz, Results = analysisResults\<rparr> = mkBundle analyzers p s c"
    unfolding mkBundle_def by blast
  with w' show ?case by simp
qed simp_all

lemma workerStep_holding:
  "workerStep env as l w = Some w' \<Longrightarrow> wellFormed env as w \<Longrightarrow> holding env as w' = holding env as w"
proof (induction env as l w rule: workerStep.induct)
  case (1 env analyzers path)
  then show ?case by (auto split: sum.splits simp: bundlesOf_Cons bundlesOf_Nil)
next
  case (3 env analyzers path sz content analysisResults running)
  then show ?case
    by (auto split: if_splits simp: mkBundle_def intro!: slots_complete)
qed (auto split: if_splits)

lemma workerStep_not_Done:
  "workerStep env as l w = Some w' \<Longrightarrow> w' \<noteq> Done \<and> w \<noteq> Done \<and> w \<noteq> Receiving"
  by (induction env as l w rule: workerStep.induct) (auto split: if_splits sum.splits)

lemma length_remove1_less: "k \<in> set xs \<Longrightarrow> length (remove1 k xs) < length xs"
  by (induction xs) auto

lemma workerStep_rank:
  "workerStep env as l w = Some w' \<Longrightarrow> wrank (length as) w' < wrank (length as) w"
  by (induction env as l w rule: workerStep.induct)
     (auto split: if_splits sum.splits simp: length_remove1_less)

subsection \<open>The invariant of the pool of AnalyzeParallel\<close>

lemma in_set_update: "x \<in> set (xs[i := y]) \<Longrightarrow> x \<noteq> y \<Longrightarrow> x \<in> set xs"
  using set_update_subset_insert [of xs i y] by auto

lemma list_all_nth: "list_all P xs \<Longrightarrow> i < length xs \<Longrightarrow> P (xs ! i)"
  by (simp add: list_all_length)

lemma holding_update:
  assumes "i < length ws" and "holding env as w + extra = holding env as (ws ! i) + extra'"
  shows "sum_list (map (holding env as) (ws[i := w])) + extra
           = sum_list (map (holding env as) ws) + extra'"
proof -
  have "sum_list (map (holding env as) (ws[i := w])) + holding env as (ws ! i)
          = sum_list (map (holding env as) ws) + holding env as w"
    using assms(1) by (rule sum_list_map_update)
  then have "sum_list (map (holding env as) (ws[i := w])) + extra + holding env as (ws ! i)
          = sum_list (map (holding env as) ws) + (holding env as w + extra)"
    by (simp add: ac_simps)
  also have "\<dots> = sum_list (map (holding env as) ws) + (holding env as (ws ! i) + extra')"
    by (simp only: assms(2))
  also have "\<dots> = sum_list (map (holding env as) ws) + extra' + holding env as (ws ! i)"
    by (simp add: ac_simps)
  finally show ?thesis by simp
qed

lemma step_inv:
  assumes inv: "poolInv env as files s" and st: "step env as e s = Some s'"
  shows "poolInv env as files s'"
proof -
  from inv have i1: "pathsClosed s \<Longrightarrow> toSend s = []"
    and i2: "Done \<in> set (workers s) \<Longrightarrow> pathsClosed s"
    and i3: "resultsClosed s \<Longrightarrow> pathsClosed s \<and> list_all (\<lambda>w. w = Done) (workers s)"
    and i4: "case returned s of None \<Rightarrow> True | Some ret \<Rightarrow> resultsClosed s \<and> ret = (out s, None)"
    and i5: "list_all (wellFormed env as) (workers s)"
    and i6: "mset (out s) + sum_list (map (holding env as) (workers s))
               + mset (bundlesOf env as (toSend s)) = mset (bundlesOf env as files)"
    by (simp_all add: poolInv_def)
  show ?thesis
  proof (cases e)
    case (Send i)
    with st obtain f fs where ts: "toSend s = f # fs" and i: "i < length (workers s)"
      and wi: "workers s ! i = Receiving"
      and s': "s' = s\<lparr>toSend := fs, workers := (workers s)[i := Reading f]\<rparr>"
      by (auto split: list.splits if_splits)
    from ts i1 have npc: "\<not> pathsClosed s" by auto
    with i3 have nrc: "\<not> resultsClosed s" by auto
    with i4 have nret: "returned s = None" by (cases "returned s") auto
    have "sum_list (map (holding env as) ((workers s)[i := Reading f])) + mset (bundlesOf env as fs)
            = sum_list (map (holding env as) (workers s)) + mset (bundlesOf env as (f # fs))"
      using i by (rule holding_update) (simp add: wi bundlesOf_Cons bundlesOf_Nil)
    with i6 ts have "mset (out s) + sum_list (map (holding env as) ((workers s)[i := Reading f]))
               + mset (bundlesOf env as fs) = mset (bundlesOf env as files)"
      by (simp add: ac_simps)
    moreover have "list_all (wellFormed env as) ((workers s)[i := Reading f])"
      using i5 by (rule list_all_update) simp
    moreover have "Done \<in> set ((workers s)[i := Reading f]) \<longrightarrow> pathsClosed s"
      using i2 in_set_update [of Done "workers s" i "Reading f"] by auto
    ultimately show ?thesis
      using npc nrc nret by (simp add: poolInv_def s')
  next
    case (Local i l)
    with st obtain w where i: "i < length (workers s)"
      and ws: "workerStep env as l (workers s ! i) = Some w"
      and s': "s' = s\<lparr>workers := (workers s)[i := w]\<rparr>"
      by (auto split: option.splits if_splits)
    from i5 i have wf: "wellFormed env as (workers s ! i)" by (rule list_all_nth)
    from workerStep_not_Done [OF ws] have nd: "w \<noteq> Done" "workers s ! i \<noteq> Done" by auto
    from nd(2) i have nall: "\<not> list_all (\<lambda>w. w = Done) (workers s)"
      using list_all_nth [of "\<lambda>w. w = Done" "workers s" i] by auto
    with i3 have nrc: "\<not> resultsClosed s" by auto
    with i4 have nret: "returned s = None" by (cases "returned s") auto
    have "sum_list (map (holding env as) ((workers s)[i := w])) + mset (bundlesOf env as (toSend s))
            = sum_list (map (holding env as) (workers s)) + mset (bundlesOf env as (toSend s))"
      using i by (rule holding_update) (simp add: workerStep_holding [OF ws wf])
    with i6 have "mset (out s) + sum_list (map (holding env as) ((workers s)[i := w]))
               + mset (bundlesOf env as (toSend s)) = mset (bundlesOf env as files)"
      by (simp add: ac_simps)
    moreover have "list_all (wellFormed env as) ((workers s)[i := w])"
      using i5 workerStep_wellFormed [OF ws wf] by (rule list_all_update)
    moreover have "Done \<in> set ((workers s)[i := w]) \<longrightarrow> pathsClosed s"
      using i2 nd(1) in_set_update [of Done "workers s" i w] by auto
    ultimately show ?thesis
      using nrc nret i1 by (simp add: poolInv_def s')
  next
    case (Recv i)
    with st obtain r where i: "i < length (workers s)" and nrc: "\<not> resultsClosed s"
      and nret: "returned s = None" and wi: "workers s ! i = Sending r"
      and s': "s' = s\<lparr>out := out s @ [r], workers := (workers s)[i := Receiving]\<rparr>"
      by (auto split: worker.splits if_splits)
    have "sum_list (map (holding env as) ((workers s)[i := Receiving])) + {#r#}
            = sum_list (map (holding env as) (workers s)) + {#}"
      using i by (rule holding_update) (simp add: wi)
    then have eq: "sum_list (map (holding env as) (workers s))
            = sum_list (map (holding env as) ((workers s)[i := Receiving])) + {#r#}"
      by simp
    from i6 have "mset (out s @ [r]) + sum_list (map (holding env as) ((workers s)[i := Receiving]))
               + mset (bundlesOf env as (toSend s)) = mset (bundlesOf env as files)"
      by (simp add: eq)
    moreover have "list_all (wellFormed env as) ((workers s)[i := Receiving])"
      using i5 by (rule list_all_update) simp
    moreover have "Done \<in> set ((workers s)[i := Receiving]) \<longrightarrow> pathsClosed s"
      using i2 in_set_update [of Done "workers s" i Receiving] by auto
    ultimately show ?thesis
      using nrc nret i1 by (simp add: poolInv_def s')
  next
    case ClosePaths
    with st have ts: "toSend s = []" and s': "s' = s\<lparr>pathsClosed := True\<rparr>"
      by (auto split: if_splits)
    show ?thesis
      using i3 i4 i5 i6 ts by (auto simp: poolInv_def s' split: option.splits)
  next
    case (Exit i)
    with st have i: "i < length (workers s)" and wi: "workers s ! i = Receiving"
      and pc: "pathsClosed s" and s': "s' = s\<lparr>workers := (workers s)[i := Done]\<rparr>"
      by (auto split: if_splits)
    from wi i have nall: "\<not> list_all (\<lambda>w. w = Done) (workers s)"
      using list_all_nth [of "\<lambda>w. w = Done" "workers s" i] by auto
    with i3 have nrc: "\<not> resultsClosed s" by auto
    with i4 have nret: "returned s = None" by (cases "returned s") auto
    have "sum_list (map (holding env as) ((workers s)[i := Done])) + mset (bundlesOf env as (toSend s))
            = sum_list (map (holding env as) (workers s)) + mset (bundlesOf env as (toSend s))"
      using i by (rule holding_update) (simp add: wi)
    with i6 have "mset (out s) + sum_list (map (holding env as) ((workers s)[i := Done]))
               + mset (bundlesOf env as (toSend s)) = mset (bundlesOf env as files)"
      by (simp add: ac_simps)
    moreover have "list_all (wellFormed env as) ((workers s)[i := Done])"
      using i5 by (rule list_all_update) simp
    ultimately show ?thesis
      using nrc nret i1 pc by (simp add: poolInv_def s')
  next
    case CloseResults
    with st have pc: "pathsClosed s" and ad: "list_all (\<lambda>w. w = Done) (workers s)"
      and nrc: "\<not> resultsClosed s" and s': "s' = s\<lparr>resultsClosed := True\<rparr>"
      by (auto split: if_splits)
    from nrc i4 have nret: "returned s = None" by (cases "returned s") auto
    show ?thesis
      using i1 i2 i5 i6 pc ad nret by (simp add: poolInv_def s')
  next
    case Return
    with st have rc: "resultsClosed s" and s': "s' = s\<lparr>returned := Some (out s, None)\<rparr>"
      by (auto split: if_splits)
    show ?thesis
      using i1 i2 i3 i5 i6 rc by (simp add: poolInv_def s')
  qed
qed

lemma sum_list_replicate_empty: "sum_list (replicate n ({#} :: 'a multiset)) = {#}"
  by (induction n) auto

lemma start_inv: "poolInv env as files (start files n)"
  by (simp add: poolInv_def start_def list_all_length sum_list_replicate_empty)

lemma run_inv:
  "poolInv env as files s \<Longrightarrow> run env as es s = Some s' \<Longrightarrow> poolInv env as files s'"
  by (induction es arbitrary: s) (auto split: option.splits dest: step_inv)

subsection \<open>Bounded executions and progress\<close>

lemma wrank_update:
  assumes "i < length ws" and "wrank n w < wrank n (ws ! i)"
  shows "sum_list (map (wrank n) (ws[i := w])) < sum_list (map (wrank n) ws)"
  using sum_list_map_update [OF assms(1), of "wrank n" w] assms(2) by linarith

lemma step_rank:
  assumes "step env as e s = Some s'"
  shows "rank (length as) s' < rank (length as) s"
proof (cases e)
  case (Send i)
  with assms obtain f fs where ts: "toSend s = f # fs" and i: "i < length (workers s)"
    and wi: "workers s ! i = Receiving"
    and s': "s' = s\<lparr>toSend := fs, workers := (workers s)[i := Reading f]\<rparr>"
    by (auto split: list.splits if_splits)
  have "sum_list (map (wrank (length as)) ((workers s)[i := Reading f])) + 1
          = sum_list (map (wrank (length as)) (workers s)) + (length as + 4)"
    using sum_list_map_update [OF i, of "wrank (length as)" "Reading f"] by (simp add: wi)
  then show ?thesis by (simp add: rank_def s' ts)
next
  case (Local i l)
  with assms obtain w where i: "i < length (workers s)"
    and ws: "workerStep env as l (workers s ! i) = Some w"
    and s': "s' = s\<lparr>workers := (workers s)[i := w]\<rparr>"
    by (auto split: option.splits if_splits)
  from wrank_update [OF i workerStep_rank [OF ws]] show ?thesis
    by (simp add: rank_def s')
next
  case (Recv i)
  with assms obtain r where i: "i < length (workers s)" and wi: "workers s ! i = Sending r"
    and s': "s' = s\<lparr>out := out s @ [r], workers := (workers s)[i := Receiving]\<rparr>"
    by (auto split: worker.splits if_splits)
  from wrank_update [OF i, of "length as" Receiving] show ?thesis
    by (simp add: rank_def s' wi)
next
  case (Exit i)
  with assms have i: "i < length (workers s)" and wi: "workers s ! i = Receiving"
    and s': "s' = s\<lparr>workers := (workers s)[i := Done]\<rparr>"
    by (auto split: if_splits)
  from wrank_update [OF i, of "length as" Done] show ?thesis
    by (simp add: rank_def s' wi)
qed (use assms in \<open>auto simp: rank_def split: if_splits\<close>)

lemma step_length: "step env as e s = Some s' \<Longrightarrow> length (workers s') = length (workers s)"
  by (cases e) (auto split: list.splits if_splits option.splits worker.splits)

lemma run_append:
  "run env as (es @ es') s = (case run env as es s of None \<Rightarrow> None | Some s' \<Rightarrow> run env as es' s')"
  by (induction es arbitrary: s) (auto split: option.splits)

lemma run_bound: "run env as es s = Some s' \<Longrightarrow> length es + rank (length as) s' \<le> rank (length as) s"
proof (induction es arbitrary: s)
  case Nil
  then show ?case by simp
next
  case (Cons e es)
  then obtain t where t: "step env as e s = Some t" and r: "run env as es t = Some s'"
    by (auto split: option.splits)
  from Cons.IH [OF r] step_rank [OF t] show ?case by simp
qed

lemma busy_worker_moves:
  assumes "w \<noteq> Receiving" "w \<noteq> Done" "\<forall>r. w \<noteq> Sending r"
  shows "\<exists>l w'. workerStep env as l w = Some w'"
proof (cases w)
  case (Reading p)
  then have "workerStep env as Read w \<noteq> None" by simp
  then show ?thesis by blast
next
  case (Analysing p sz c slots running)
  show ?thesis
  proof (cases running)
    case Nil
    with Analysing have "workerStep env as Join w \<noteq> None" by simp
    then show ?thesis by blast
  next
    case (Cons k ks)
    with Analysing have "workerStep env as (Task k) w \<noteq> None" by simp
    then show ?thesis by blast
  qed
qed (use assms in auto)

lemma progress:
  assumes inv: "poolInv env as files s" and nret: "returned s = None"
    and pos: "0 < length (workers s)"
  shows "\<exists>e s'. step env as e s = Some s'"
proof -
  from inv have i1: "pathsClosed s \<Longrightarrow> toSend s = []"
    and i2: "Done \<in> set (workers s) \<Longrightarrow> pathsClosed s"
    and i3: "resultsClosed s \<Longrightarrow> pathsClosed s \<and> list_all (\<lambda>w. w = Done) (workers s)"
    by (simp_all add: poolInv_def)
  have en: "step env as e s \<noteq> None \<Longrightarrow> ?thesis" for e by auto
  consider (busy) i where "i < length (workers s)" "workers s ! i \<noteq> Receiving"
      "workers s ! i \<noteq> Done" "\<forall>r. workers s ! i \<noteq> Sending r"
    | (sending) i r where "i < length (workers s)" "workers s ! i = Sending r"
    | (idle) "\<forall>i<length (workers s). workers s ! i = Receiving \<or> workers s ! i = Done"
    by blast
  then show ?thesis
  proof cases
    case busy
    from busy_worker_moves [OF busy(2-4)] obtain l w'
      where "workerStep env as l (workers s ! i) = Some w'" by blast
    with busy(1) have "step env as (Local i l) s \<noteq> None" by simp
    then show ?thesis by (rule en)
  next
    case sending
    then have "\<not> list_all (\<lambda>w. w = Done) (workers s)"
      using list_all_nth [of "\<lambda>w. w = Done" "workers s" i] by auto
    with i3 have "\<not> resultsClosed s" by auto
    with sending nret have "step env as (Recv i) s \<noteq> None" by simp
    then show ?thesis by (rule en)
  next
    case idle
    show ?thesis
    proof (cases "toSend s")
      case (Cons f fs)
      with i1 have "\<not> pathsClosed s" by auto
      with i2 have "Done \<notin> set (workers s)" by auto
      with pos have "workers s ! 0 \<noteq> Done" by (metis nth_mem)
      with idle pos have "workers s ! 0 = Receiving" by auto
      with pos Cons have "step env as (Send 0) s \<noteq> None" by simp
      then show ?thesis by (rule en)
    next
      case Nil
      show ?thesis
      proof (cases "pathsClosed s")
        case False
        with Nil have "step env as ClosePaths s \<noteq> None" by simp
        then show ?thesis by (rule en)
      next
        case pc: True
        show ?thesis
        proof (cases "\<exists>i<length (workers s). workers s ! i = Receiving")
          case True
          then obtain i where "i < length (workers s)" "workers s ! i = Receiving" by blast
          with pc have "step env as (Exit i) s \<noteq> None" by simp
          then show ?thesis by (rule en)
        next
          case False
          with idle have ad: "list_all (\<lambda>w. w = Done) (workers s)"
            by (auto simp: list_all_length)
          show ?thesis
          proof (cases "resultsClosed s")
            case True
            with nret have "step env as Return s \<noteq> None" by simp
            then show ?thesis by (rule en)
          next
            case False
            with pc ad have "step env as CloseResults s \<noteq> None" by simp
            then show ?thesis by (rule en)
          qed
        qed
      qed
    qed
  qed
qed

lemma completion:
  assumes "poolInv env as files s" and "0 < length (workers s)"
  shows "\<exists>es s'. run env as es s = Some s' \<and> returned s' \<noteq> None"
  using assms
proof (induction "rank (length as) s" arbitrary: s rule: less_induct)
  case less
  show ?case
  proof (cases "returned s")
    case (Some a)
    then have "run env as [] s = Some s \<and> returned s \<noteq> None" by simp
    then show ?thesis by blast
  next
    case None
    from progress [OF less.prems(1) None less.prems(2)]
    obtain e t where t: "step env as e s = Some t" by blast
    from less.hyps [OF step_rank [OF t] step_inv [OF less.prems(1) t]]
      less.prems(2) step_length [OF t]
    obtain es s' where "run env as es t = Some s'" "returned s' \<noteq> None" by auto
    with t have "run env as (e # es) s = Some s' \<and> returned s' \<noteq> None" by simp
    then show ?thesis by blast
  qed
qed

subsection \<open>AnalyzeSequential and AnalyzeParallel\<close>

lemma AnalyzeSequential_bundles:
  "AnalyzeSequential env files as = (bundlesOf env as files, None)"
  by (simp add: AnalyzeSequential_def sequentialLoop_bundles)

lemma bundlesOf_append:
  "bundlesOf env as (xs @ ys) = bundlesOf env as xs @ bundlesOf env as ys"
  by (induction xs) (simp_all add: bundlesOf_Nil bundlesOf_Cons)

lemma bundlesOf_readable:
  assumes "\<forall>path\<in>set files. readFileContent env path = Inr (content path, sz path)"
  shows "bundlesOf env as files = map (\<lambda>path. mkBundle as path (sz path) (content path)) files"
  using assms by (induction files) (simp_all add: bundlesOf_Nil bundlesOf_Cons)

lemma bundlesOf_unreadable:
  assumes "\<forall>path\<in>set files. \<exists>err. readFileContent env path = Inl err"
  shows "bundlesOf env as files = []"
  using assms by (induction files) (auto simp: bundlesOf_Nil bundlesOf_Cons)

lemma returned_result:
  assumes "AnalyzeParallel env files as n schedule = Some (res, err)"
  shows "err = None \<and> mset res = mset (bundlesOf env as files)"
proof -
  from assms obtain s where r: "run env as schedule (start files n) = Some s"
    and ret: "returned s = Some (res, err)"
    by (auto simp: AnalyzeParallel_def split: option.splits)
  from run_inv [OF start_inv r] have inv: "poolInv env as files s" .
  from inv ret have rc: "resultsClosed s" and res: "res = out s" "err = None"
    by (auto simp: poolInv_def)
  from inv rc have "toSend s = []" and ad: "list_all (\<lambda>w. w = Done) (workers s)"
    by (auto simp: poolInv_def)
  have "list_all (\<lambda>w. w = Done) ws \<Longrightarrow> sum_list (map (holding env as) ws) = {#}" for ws
    by (induction ws) auto
  from this [OF ad] have "sum_list (map (holding env as) (workers s)) = {#}" .
  with inv \<open>toSend s = []\<close> have "mset (out s) = mset (bundlesOf env as files)"
    by (simp add: poolInv_def bundlesOf_Nil)
  with res show ?thesis by simp
qed

lemma extends_to_return:
  assumes "1 \<le> n" and "run env as schedule (start files n) = Some s"
  shows "\<exists>more res. AnalyzeParallel env files as n (schedule @ more) = Some (res, None)"
proof -
  from run_inv [OF start_inv assms(2)] have inv: "poolInv env as files s" .
  have "length (workers s) = length (workers (start files n))"
    using assms(2)
  proof (induction schedule arbitrary: s rule: rev_induct)
    case Nil
    then show ?case by simp
  next
    case (snoc e es)
    then obtain t where "run env as es (start files n) = Some t" "step env as e t = Some s"
      by (auto simp: run_append split: option.splits)
    with snoc.IH [of t] step_length [of env as e t s] show ?case by simp
  qed
  with assms(1) have "0 < length (workers s)" by (simp add: start_def)
  from completion [OF inv this] obtain more s' where
    m: "run env as more s = Some s'" and ret: "returned s' \<noteq> None" by blast
  from ret obtain res err where re: "returned s' = Some (res, err)" by (cases "returned s'") auto
  from assms(2) m re have ap: "AnalyzeParallel env files as n (schedule @ more) = Some (res, err)"
    by (simp add: AnalyzeParallel_def run_append)
  from returned_result [OF ap] ap show ?thesis by auto
qed

lemma schedule_bound:
  assumes "run env as schedule (start files n) = Some s"
  shows "length schedule \<le> length files * (length as + 5) + nat n + 3"
proof -
  have "sum_list (map (wrank k) (replicate m Receiving)) = m" for k m
    by (induction m) auto
  then have "rank (length as) (start files n) = length files * (length as + 5) + nat n + 3"
    by (simp add: rank_def start_def)
  with run_bound [OF assms] show ?thesis by simp
qed

text \<open>The examples evaluated.\<close>

lemma WordCount_xy: "WordCount_Analyze ''x y'' = \<lparr>NameAnalyzer = ''word_count'', Data = IntData 2\<rparr>"
  "WordCount_Analyze ''z'' = \<lparr>NameAnalyzer = ''word_count'', Data = IntData 1\<rparr>"
proof -
  have "Fields ''x y'' = [''x'', ''y'']" "Fields ''z'' = [''z'']" by code_simp+
  then show "WordCount_Analyze ''x y'' = \<lparr>NameAnalyzer = ''word_count'', Data = IntData 2\<rparr>"
  "WordCount_Analyze ''z'' = \<lparr>NameAnalyzer = ''word_count'', Data = IntData 1\<rparr>"
    by (simp_all add: WordCount_Analyze_def)
qed

lemma Base_tmp: "Base ''/tmp/a.txt'' = ''a.txt''" "Base ''/tmp/b.txt'' = ''b.txt''"
  by code_simp+

lemma read_twoFiles:
  "readFileContent twoFiles ''/tmp/a.txt'' = Inr (''x y'', 3)"
  "readFileContent twoFiles ''/tmp/b.txt'' = Inr (''z'', 1)"
  by (simp_all add: readFileContent_def twoFiles_def)

lemma interleaved_run:
  "AnalyzeParallel twoFiles [''/tmp/a.txt'', ''/tmp/b.txt''] testAnalyzers 2 interleaved
     = Some ([\<lparr>FileName = ''b.txt'', Size = 1,
               Results = [\<lparr>NameAnalyzer = ''word_count'', Data = IntData 1\<rparr>,
                          \<lparr>NameAnalyzer = ''line_count'', Data = IntData 1\<rparr>]\<rparr>,
              \<lparr>FileName = ''a.txt'', Size = 3,
               Results = [\<lparr>NameAnalyzer = ''word_count'', Data = IntData 2\<rparr>,
                          \<lparr>NameAnalyzer = ''line_count'', Data = IntData 1\<rparr>]\<rparr>], None)"
  by (simp add: AnalyzeParallel_def interleaved_def start_def testAnalyzers_def read_twoFiles
      WordCountAnalyzer_def LineCountAnalyzer_def WordCount_xy LineCount_Analyze_def Base_tmp
      zeroResult_def eval_nat_numeral)

text \<open>
  C1. With at least one worker, every execution of \<open>AnalyzeParallel\<close> that returns, returns
  the bundles of \<open>AnalyzeSequential\<close> as a multiset, whatever the schedule; when every
  file is readable these are the bundles of the files, one per file. No execution is
  longer than a bound, and every execution that has not returned can go on until it
  returns: the pool does not block and does not run forever.
\<close>

theorem AnalyzeParallel_same_multiset:
  assumes "1 \<le> workerCount"
  shows "(\<forall>schedule res err.
            AnalyzeParallel env files analyzers workerCount schedule = Some (res, err) \<longrightarrow>
              mset res = mset (fst (AnalyzeSequential env files analyzers)) \<and>
              ((\<forall>path\<in>set files. readFileContent env path = Inr (content path, sz path)) \<longrightarrow>
                 mset res
                   = mset (map (\<lambda>path. mkBundle analyzers path (sz path) (content path)) files)))
       \<and> (\<forall>schedule s.
            run env analyzers schedule (start files workerCount) = Some s \<longrightarrow>
              length schedule \<le> length files * (length analyzers + 5) + nat workerCount + 3 \<and>
              (\<exists>more res.
                 AnalyzeParallel env files analyzers workerCount (schedule @ more)
                   = Some (res, None)))"
proof (intro conjI allI impI)
  fix schedule res err
  assume ap: "AnalyzeParallel env files analyzers workerCount schedule = Some (res, err)"
  from returned_result [OF ap]
  show "mset res = mset (fst (AnalyzeSequential env files analyzers))"
    by (simp add: AnalyzeSequential_bundles)
  assume "\<forall>path\<in>set files. readFileContent env path = Inr (content path, sz path)"
  from bundlesOf_readable [OF this] returned_result [OF ap]
  show "mset res = mset (map (\<lambda>path. mkBundle analyzers path (sz path) (content path)) files)"
    by simp
next
  fix schedule s
  assume r: "run env analyzers schedule (start files workerCount) = Some s"
  from schedule_bound [OF r]
  show "length schedule \<le> length files * (length analyzers + 5) + nat workerCount + 3" .
  from extends_to_return [OF assms r]
  show "\<exists>more res.
          AnalyzeParallel env files analyzers workerCount (schedule @ more) = Some (res, None)" .
qed

text \<open>
  The theorem on the two files with two workers: under the schedule \<open>interleaved\<close> the
  bundles come back in the opposite order of \<open>AnalyzeSequential\<close>; an execution that
  starts by giving the first file to worker 1 can be completed.
\<close>

theorem AnalyzeParallel_same_multiset_witness:
  "(1::int) \<le> 2
   \<and> AnalyzeParallel twoFiles [''/tmp/a.txt'', ''/tmp/b.txt''] testAnalyzers 2 interleaved
       = Some ([mkBundle testAnalyzers ''/tmp/b.txt'' 1 ''z'',
                mkBundle testAnalyzers ''/tmp/a.txt'' 3 ''x y''], None)
   \<and> fst (AnalyzeSequential twoFiles [''/tmp/a.txt'', ''/tmp/b.txt''] testAnalyzers)
       = [mkBundle testAnalyzers ''/tmp/a.txt'' 3 ''x y'',
          mkBundle testAnalyzers ''/tmp/b.txt'' 1 ''z'']
   \<and> mset [mkBundle testAnalyzers ''/tmp/b.txt'' 1 ''z'',
            mkBundle testAnalyzers ''/tmp/a.txt'' 3 ''x y'']
       = mset (fst (AnalyzeSequential twoFiles [''/tmp/a.txt'', ''/tmp/b.txt''] testAnalyzers))
   \<and> readFileContent twoFiles ''/tmp/a.txt'' = Inr (''x y'', 3)
   \<and> readFileContent twoFiles ''/tmp/b.txt'' = Inr (''z'', 1)
   \<and> mset [mkBundle testAnalyzers ''/tmp/b.txt'' 1 ''z'',
            mkBundle testAnalyzers ''/tmp/a.txt'' 3 ''x y'']
       = mset (map (\<lambda>path. mkBundle testAnalyzers path
                              (if path = ''/tmp/a.txt'' then 3 else 1)
                              (if path = ''/tmp/a.txt'' then ''x y'' else ''z''))
                 [''/tmp/a.txt'', ''/tmp/b.txt''])
   \<and> run twoFiles testAnalyzers [Send 1] (start [''/tmp/a.txt'', ''/tmp/b.txt''] 2)
       = Some \<lparr>toSend = [''/tmp/b.txt''], pathsClosed = False,
               workers = [Receiving, Reading ''/tmp/a.txt''], resultsClosed = False,
               out = [], returned = None\<rparr>
   \<and> (\<exists>more res.
         AnalyzeParallel twoFiles [''/tmp/a.txt'', ''/tmp/b.txt''] testAnalyzers 2 ([Send 1] @ more)
           = Some (res, None))"
proof -
  let ?files = "[''/tmp/a.txt'', ''/tmp/b.txt'']"
  let ?content = "\<lambda>path. if path = ''/tmp/a.txt'' then ''x y'' else ''z''"
  let ?sz = "\<lambda>path. if path = ''/tmp/a.txt'' then 3 else (1::int)"
  have w: "(1::int) \<le> 2" by simp
  note inst = AnalyzeParallel_same_multiset [OF w, of twoFiles ?files testAnalyzers ?content ?sz]
  have ap: "AnalyzeParallel twoFiles ?files testAnalyzers 2 interleaved
       = Some ([mkBundle testAnalyzers ''/tmp/b.txt'' 1 ''z'',
                mkBundle testAnalyzers ''/tmp/a.txt'' 3 ''x y''], None)"
    unfolding interleaved_run
    by (simp add: mkBundle_def testAnalyzers_def WordCountAnalyzer_def
        LineCountAnalyzer_def WordCount_xy LineCount_Analyze_def Base_tmp)
  have sq: "fst (AnalyzeSequential twoFiles ?files testAnalyzers)
       = [mkBundle testAnalyzers ''/tmp/a.txt'' 3 ''x y'',
          mkBundle testAnalyzers ''/tmp/b.txt'' 1 ''z'']"
    by (simp add: AnalyzeSequential_def read_twoFiles analyzeLoop_map mkBundle_def)
  have r: "run twoFiles testAnalyzers [Send 1] (start ?files 2)
       = Some \<lparr>toSend = [''/tmp/b.txt''], pathsClosed = False,
               workers = [Receiving, Reading ''/tmp/a.txt''], resultsClosed = False,
               out = [], returned = None\<rparr>"
    by (simp add: start_def eval_nat_numeral)
  from inst ap have "mset [mkBundle testAnalyzers ''/tmp/b.txt'' 1 ''z'',
            mkBundle testAnalyzers ''/tmp/a.txt'' 3 ''x y'']
       = mset (fst (AnalyzeSequential twoFiles ?files testAnalyzers))"
    by blast
  moreover from inst r have "\<exists>more res.
         AnalyzeParallel twoFiles ?files testAnalyzers 2 ([Send 1] @ more) = Some (res, None)"
    by blast
  moreover have rd: "\<forall>path\<in>set ?files. readFileContent twoFiles path = Inr (?content path, ?sz path)"
    by (simp add: read_twoFiles)
  from inst ap rd have "mset [mkBundle testAnalyzers ''/tmp/b.txt'' 1 ''z'',
            mkBundle testAnalyzers ''/tmp/a.txt'' 3 ''x y'']
       = mset (map (\<lambda>path. mkBundle testAnalyzers path (?sz path) (?content path)) ?files)"
    by blast
  ultimately show ?thesis using w ap sq r read_twoFiles by blast
qed

text \<open>
  C9. \<open>AnalyzeSequential\<close> returns, in the order of the input files, one bundle for each
  file that can be read and nothing for a file whose read fails: a failing file can be
  removed from the input without changing the result, and the bundle of a readable file
  stands between the results of the files before it and of the files after it.
\<close>

theorem AnalyzeSequential_ordered_skipping:
  "fst (AnalyzeSequential env files analyzers) = bundlesOf env analyzers files
   \<and> (\<forall>before path after err.
        files = before @ path # after \<and> readFileContent env path = Inl err \<longrightarrow>
          AnalyzeSequential env files analyzers = AnalyzeSequential env (before @ after) analyzers)
   \<and> (\<forall>before path after content sz.
        files = before @ path # after \<and> readFileContent env path = Inr (content, sz) \<longrightarrow>
          fst (AnalyzeSequential env files analyzers)
            = fst (AnalyzeSequential env before analyzers)
                @ mkBundle analyzers path sz content
                # fst (AnalyzeSequential env after analyzers))"
  by (auto simp: AnalyzeSequential_bundles bundlesOf_append bundlesOf_Cons)

text \<open>
  The theorem on three paths, the second of which cannot be read: the result is that of
  the two files that can.
\<close>

theorem AnalyzeSequential_ordered_skipping_witness:
  "readFileContent twoFiles ''/tmp/missing.txt'' = Inl (Error ''no such file'')
   \<and> AnalyzeSequential twoFiles [''/tmp/a.txt'', ''/tmp/missing.txt'', ''/tmp/b.txt''] testAnalyzers
       = AnalyzeSequential twoFiles ([''/tmp/a.txt''] @ [''/tmp/b.txt'']) testAnalyzers
   \<and> readFileContent twoFiles ''/tmp/b.txt'' = Inr (''z'', 1)
   \<and> fst (AnalyzeSequential twoFiles [''/tmp/a.txt'', ''/tmp/missing.txt'', ''/tmp/b.txt''] testAnalyzers)
       = fst (AnalyzeSequential twoFiles [''/tmp/a.txt'', ''/tmp/missing.txt''] testAnalyzers)
           @ mkBundle testAnalyzers ''/tmp/b.txt'' 1 ''z''
           # fst (AnalyzeSequential twoFiles [] testAnalyzers)
   \<and> fst (AnalyzeSequential twoFiles [''/tmp/a.txt'', ''/tmp/missing.txt'', ''/tmp/b.txt''] testAnalyzers)
       = [mkBundle testAnalyzers ''/tmp/a.txt'' 3 ''x y'', mkBundle testAnalyzers ''/tmp/b.txt'' 1 ''z'']"
proof -
  let ?files = "[''/tmp/a.txt'', ''/tmp/missing.txt'', ''/tmp/b.txt'']"
  note inst = AnalyzeSequential_ordered_skipping [of twoFiles ?files testAnalyzers]
  have m: "readFileContent twoFiles ''/tmp/missing.txt'' = Inl (Error ''no such file'')"
    by (simp add: readFileContent_def twoFiles_def)
  have f1: "?files = [''/tmp/a.txt''] @ ''/tmp/missing.txt'' # [''/tmp/b.txt'']" by simp
  have f2: "?files = [''/tmp/a.txt'', ''/tmp/missing.txt''] @ ''/tmp/b.txt'' # []" by simp
  from inst f1 m have a: "AnalyzeSequential twoFiles ?files testAnalyzers
       = AnalyzeSequential twoFiles ([''/tmp/a.txt''] @ [''/tmp/b.txt'']) testAnalyzers"
    by blast
  from inst f2 read_twoFiles(2) have b: "fst (AnalyzeSequential twoFiles ?files testAnalyzers)
       = fst (AnalyzeSequential twoFiles [''/tmp/a.txt'', ''/tmp/missing.txt''] testAnalyzers)
           @ mkBundle testAnalyzers ''/tmp/b.txt'' 1 ''z''
           # fst (AnalyzeSequential twoFiles [] testAnalyzers)"
    by blast
  have c: "fst (AnalyzeSequential twoFiles ?files testAnalyzers)
       = [mkBundle testAnalyzers ''/tmp/a.txt'' 3 ''x y'', mkBundle testAnalyzers ''/tmp/b.txt'' 1 ''z'']"
    by (simp add: AnalyzeSequential_def read_twoFiles m analyzeLoop_map mkBundle_def)
  from m a b c read_twoFiles(2) show ?thesis by blast
qed

text \<open>
  C10. The error returned by \<open>AnalyzeSequential\<close> is \<open>nil\<close>, and so is the error of every
  execution of \<open>AnalyzeParallel\<close> that returns; with at least one worker such an
  execution exists. When every read fails, both return no result and the \<open>nil\<close> error.
\<close>

theorem Analyze_error_is_nil:
  "snd (AnalyzeSequential env files analyzers) = None
   \<and> (\<forall>schedule res err.
        AnalyzeParallel env files analyzers workerCount schedule = Some (res, err) \<longrightarrow> err = None)
   \<and> (1 \<le> workerCount \<longrightarrow>
        (\<exists>schedule res.
           AnalyzeParallel env files analyzers workerCount schedule = Some (res, None)))
   \<and> ((\<forall>path\<in>set files. \<exists>err. readFileContent env path = Inl err) \<longrightarrow>
        AnalyzeSequential env files analyzers = ([], None)
        \<and> (\<forall>schedule res err.
             AnalyzeParallel env files analyzers workerCount schedule = Some (res, err) \<longrightarrow>
               res = [] \<and> err = None))"
proof (intro conjI allI impI)
  show "snd (AnalyzeSequential env files analyzers) = None"
    by (simp add: AnalyzeSequential_def)
next
  fix schedule res err
  assume "AnalyzeParallel env files analyzers workerCount schedule = Some (res, err)"
  from returned_result [OF this] show "err = None" by simp
next
  assume w: "1 \<le> workerCount"
  have "run env analyzers [] (start files workerCount) = Some (start files workerCount)"
    by simp
  from extends_to_return [OF w this]
  show "\<exists>schedule res.
          AnalyzeParallel env files analyzers workerCount schedule = Some (res, None)"
    by auto
next
  assume un: "\<forall>path\<in>set files. \<exists>err. readFileContent env path = Inl err"
  from bundlesOf_unreadable [OF un]
  show "AnalyzeSequential env files analyzers = ([], None)"
    by (simp add: AnalyzeSequential_bundles)
  fix schedule res err
  assume ap: "AnalyzeParallel env files analyzers workerCount schedule = Some (res, err)"
  from returned_result [OF ap] bundlesOf_unreadable [OF un, of analyzers]
  show "res = []" "err = None" by simp_all
qed

text \<open>The theorem on a file system where every read fails, with one worker.\<close>

theorem Analyze_error_is_nil_witness:
  "(1::int) \<le> 1
   \<and> readFileContent noFiles ''/tmp/a.txt'' = Inl (Error ''no such file'')
   \<and> readFileContent noFiles ''/tmp/b.txt'' = Inl (Error ''no such file'')
   \<and> AnalyzeSequential noFiles [''/tmp/a.txt'', ''/tmp/b.txt''] testAnalyzers = ([], None)
   \<and> AnalyzeParallel noFiles [''/tmp/a.txt'', ''/tmp/b.txt''] testAnalyzers 1 oneWorker
       = Some ([], None)
   \<and> (\<exists>schedule res.
         AnalyzeParallel noFiles [''/tmp/a.txt'', ''/tmp/b.txt''] testAnalyzers 1 schedule
           = Some (res, None))"
proof -
  let ?files = "[''/tmp/a.txt'', ''/tmp/b.txt'']"
  note inst = Analyze_error_is_nil [of noFiles ?files testAnalyzers 1]
  have rd: "readFileContent noFiles path = Inl (Error ''no such file'')" for path
    by (simp add: readFileContent_def noFiles_def)
  then have un: "\<forall>path\<in>set ?files. \<exists>err. readFileContent noFiles path = Inl err"
    by blast
  have ap: "AnalyzeParallel noFiles ?files testAnalyzers 1 oneWorker = Some ([], None)"
    by (simp add: AnalyzeParallel_def oneWorker_def start_def rd)
  from inst un have "AnalyzeSequential noFiles ?files testAnalyzers = ([], None)"
    by blast
  moreover from inst have "\<exists>schedule res.
         AnalyzeParallel noFiles ?files testAnalyzers 1 schedule = Some (res, None)"
    by simp
  ultimately show ?thesis using rd ap by simp
qed

subsection \<open>Complete bundles\<close>

lemma wellFormed_Sending_complete:
  assumes "wellFormed env as (Sending r)"
  shows "complete env as r"
proof -
  from assms obtain p c sz where rd: "readFileContent env p = Inr (c, sz)"
    and r: "r = mkBundle as p sz c" by auto
  from r have "FileName r = Base p \<and> Size r = sz \<and> length (Results r) = length as
      \<and> (\<forall>i<length as. Results r ! i = Analyze (as ! i) c)"
    by (simp add: mkBundle_def)
  with rd show ?thesis unfolding complete_def by blast
qed

lemma in_bundlesOf:
  "r \<in> set (bundlesOf env as files) \<Longrightarrow> wellFormed env as (Sending r)"
proof (induction files)
  case Nil
  then show ?case by (simp add: bundlesOf_Nil)
next
  case (Cons p ps)
  show ?case
  proof (cases "readFileContent env p")
    case (Inl e)
    with Cons show ?thesis by (simp add: bundlesOf_Cons)
  next
    case (Inr cs)
    obtain c sz where cs: "cs = (c, sz)" by (cases cs)
    from Cons.prems Inr cs have "r = mkBundle as p sz c \<or> r \<in> set (bundlesOf env as ps)"
      by (simp add: bundlesOf_Cons)
    then show ?thesis
    proof
      assume "r = mkBundle as p sz c"
      with Inr cs have "\<exists>p c sz. readFileContent env p = Inr (c, sz) \<and> r = mkBundle as p sz c"
        by blast
      then show ?thesis by simp
    qed (rule Cons.IH)
  qed
qed

lemma pool_out_wellFormed:
  assumes "poolInv env as files s" and "r \<in> set (out s)"
  shows "wellFormed env as (Sending r)"
proof -
  from assms(1) have "mset (out s) \<subseteq># mset (bundlesOf env as files)"
    unfolding poolInv_def by (metis mset_subset_eq_add_left add.assoc)
  with assms(2) have "r \<in> set (bundlesOf env as files)"
    by (metis mset_subset_eqD set_mset_mset)
  then show ?thesis by (rule in_bundlesOf)
qed

lemma pool_worker_wellFormed:
  assumes "poolInv env as files s" and "w \<in> set (workers s)"
  shows "wellFormed env as w"
  using assms by (auto simp: poolInv_def list_all_iff)

lemma pipeStep_inv:
  assumes inv: "pipeInv env as s" and st: "pipeStep env as a s = Some s'"
  shows "pipeInv env as s'"
proof -
  from inv have w: "list_all (wellFormed env as) (poolWorkers s)"
    and d: "list_all (\<lambda>r. wellFormed env as (Sending r)) (delivered s)"
    by (simp_all add: pipeInv_def)
  show ?thesis
  proof (cases a)
    case (Pull i)
    with st obtain p ps where "s' = s\<lparr>filePaths := ps, poolWorkers := (poolWorkers s)[i := Reading p]\<rparr>"
      by (auto split: list.splits if_splits)
    moreover have "list_all (wellFormed env as) ((poolWorkers s)[i := Reading p])"
      using w by (rule list_all_update) simp
    ultimately show ?thesis using d by (simp add: pipeInv_def)
  next
    case (PullClosed i)
    with st have "s' = s\<lparr>poolWorkers := (poolWorkers s)[i := Done]\<rparr>"
      by (auto split: if_splits)
    moreover have "list_all (wellFormed env as) ((poolWorkers s)[i := Done])"
      using w by (rule list_all_update) simp
    ultimately show ?thesis using d by (simp add: pipeInv_def)
  next
    case (PullCancelled i)
    with st have "s' = s\<lparr>poolWorkers := (poolWorkers s)[i := Done]\<rparr>"
      by (auto split: if_splits)
    moreover have "list_all (wellFormed env as) ((poolWorkers s)[i := Done])"
      using w by (rule list_all_update) simp
    ultimately show ?thesis using d by (simp add: pipeInv_def)
  next
    case (Work i l)
    with st obtain w' where i: "i < length (poolWorkers s)"
      and ws: "workerStep env as l (poolWorkers s ! i) = Some w'"
      and s': "s' = s\<lparr>poolWorkers := (poolWorkers s)[i := w']\<rparr>"
      by (auto split: option.splits if_splits)
    from w i have "wellFormed env as (poolWorkers s ! i)" by (rule list_all_nth)
    from workerStep_wellFormed [OF ws this]
    have "list_all (wellFormed env as) ((poolWorkers s)[i := w'])"
      using w by (intro list_all_update)
    then show ?thesis using d by (simp add: pipeInv_def s')
  next
    case (Push i)
    with st obtain r where i: "i < length (poolWorkers s)" and wi: "poolWorkers s ! i = Sending r"
      and s': "s' = s\<lparr>delivered := delivered s @ [r],
                        poolWorkers := (poolWorkers s)[i := Receiving]\<rparr>"
      by (auto split: worker.splits if_splits)
    from w i have "wellFormed env as (poolWorkers s ! i)" by (rule list_all_nth)
    with wi have "wellFormed env as (Sending r)" by simp
    moreover have "list_all (wellFormed env as) ((poolWorkers s)[i := Receiving])"
      using w by (rule list_all_update) simp
    ultimately show ?thesis using d by (simp add: pipeInv_def s')
  qed (use st w d in \<open>auto simp: pipeInv_def split: if_splits list.splits\<close>)
qed

lemma pipeRun_inv:
  "pipeInv env as s \<Longrightarrow> pipeRun env as acts s = Some s' \<Longrightarrow> pipeInv env as s'"
  by (induction acts arbitrary: s) (auto split: option.splits dest: pipeStep_inv)

lemma pipeStart_inv: "pipeInv env as (pipeStart files n)"
  by (simp add: pipeInv_def pipeStart_def list_all_length)

text \<open>
  C2. In \<open>AnalyzeParallel\<close> and in the interactive pool, under every schedule, a bundle
  that a worker is about to send or that has been received is complete: it has one
  result per configured analyzer, at the index of the analyzer, computed on the content
  of its file. A worker builds its bundle only when no analyzer goroutine is running.
\<close>

theorem emitted_bundles_complete:
  "(\<forall>schedule s r.
      run env analyzers schedule (start files workerCount) = Some s
      \<and> (r \<in> set (out s) \<or> Sending r \<in> set (workers s)) \<longrightarrow> complete env analyzers r)
   \<and> (\<forall>schedule s r.
      pipeRun env analyzers schedule (pipeStart files workerCount) = Some s
      \<and> (r \<in> set (delivered s) \<or> Sending r \<in> set (poolWorkers s)) \<longrightarrow>
        complete env analyzers r)
   \<and> (\<forall>path sz content slots running w.
      workerStep env analyzers Join (Analysing path sz content slots running) = Some w \<longrightarrow>
        running = [] \<and> w = Sending \<lparr>FileName = Base path, Size = sz, Results = slots\<rparr>)"
proof (intro conjI allI impI)
  fix schedule s r
  assume a: "run env analyzers schedule (start files workerCount) = Some s
      \<and> (r \<in> set (out s) \<or> Sending r \<in> set (workers s))"
  then have inv: "poolInv env analyzers files s"
    using run_inv [OF start_inv] by blast
  from a pool_out_wellFormed [OF inv] pool_worker_wellFormed [OF inv]
  have "wellFormed env analyzers (Sending r)" by blast
  then show "complete env analyzers r" by (rule wellFormed_Sending_complete)
next
  fix schedule s r
  assume a: "pipeRun env analyzers schedule (pipeStart files workerCount) = Some s
      \<and> (r \<in> set (delivered s) \<or> Sending r \<in> set (poolWorkers s))"
  then have "pipeInv env analyzers s"
    using pipeRun_inv [OF pipeStart_inv] by blast
  with a have "wellFormed env analyzers (Sending r)"
    by (auto simp: pipeInv_def list_all_iff)
  then show "complete env analyzers r" by (rule wellFormed_Sending_complete)
next
  fix path sz content slots running w
  assume "workerStep env analyzers Join (Analysing path sz content slots running) = Some w"
  then show "running = []" "w = Sending \<lparr>FileName = Base path, Size = sz, Results = slots\<rparr>"
    by (auto split: if_splits)
qed

lemma pool_interleaved_state:
  "run twoFiles testAnalyzers interleaved (start [''/tmp/a.txt'', ''/tmp/b.txt''] 2)
     = Some \<lparr>toSend = [], pathsClosed = True, workers = [Done, Done], resultsClosed = True,
             out = [mkBundle testAnalyzers ''/tmp/b.txt'' 1 ''z'',
                    mkBundle testAnalyzers ''/tmp/a.txt'' 3 ''x y''],
             returned = Some ([mkBundle testAnalyzers ''/tmp/b.txt'' 1 ''z'',
                               mkBundle testAnalyzers ''/tmp/a.txt'' 3 ''x y''], None)\<rparr>"
  by (simp add: interleaved_def start_def testAnalyzers_def read_twoFiles mkBundle_def
      zeroResult_def eval_nat_numeral)

lemma pipe_interleaved_state:
  "pipeRun twoFiles (mainAnalyzers (\<lambda>s. s)) pipeInterleaved
       (pipeStart [''/tmp/a.txt'', ''/tmp/b.txt''] 2)
     = Some \<lparr>cancelled = False, toFeed = [], filePathsClosed = True, filePaths = [],
             poolWorkers = [Done, Done], resultsDone = True,
             delivered = [mkBundle (mainAnalyzers (\<lambda>s. s)) ''/tmp/a.txt'' 3 ''x y'',
                          mkBundle (mainAnalyzers (\<lambda>s. s)) ''/tmp/b.txt'' 1 ''z'']\<rparr>"
  by (simp add: pipeInterleaved_def pipeStart_def mainAnalyzers_def read_twoFiles mkBundle_def
      zeroResult_def eval_nat_numeral)

text \<open>
  The theorem on the two files with two workers, in \<open>AnalyzeParallel\<close> and in the
  interactive pool, under schedules where the analyzer goroutines finish out of order.
\<close>

theorem emitted_bundles_complete_witness:
  "run twoFiles testAnalyzers interleaved (start [''/tmp/a.txt'', ''/tmp/b.txt''] 2)
     = Some \<lparr>toSend = [], pathsClosed = True, workers = [Done, Done], resultsClosed = True,
             out = [mkBundle testAnalyzers ''/tmp/b.txt'' 1 ''z'',
                    mkBundle testAnalyzers ''/tmp/a.txt'' 3 ''x y''],
             returned = Some ([mkBundle testAnalyzers ''/tmp/b.txt'' 1 ''z'',
                               mkBundle testAnalyzers ''/tmp/a.txt'' 3 ''x y''], None)\<rparr>
   \<and> complete twoFiles testAnalyzers (mkBundle testAnalyzers ''/tmp/b.txt'' 1 ''z'')
   \<and> Results (mkBundle testAnalyzers ''/tmp/b.txt'' 1 ''z'')
       = [Analyze WordCountAnalyzer ''z'', Analyze LineCountAnalyzer ''z'']
   \<and> pipeRun twoFiles (mainAnalyzers (\<lambda>s. s)) pipeInterleaved
         (pipeStart [''/tmp/a.txt'', ''/tmp/b.txt''] 2)
     = Some \<lparr>cancelled = False, toFeed = [], filePathsClosed = True, filePaths = [],
             poolWorkers = [Done, Done], resultsDone = True,
             delivered = [mkBundle (mainAnalyzers (\<lambda>s. s)) ''/tmp/a.txt'' 3 ''x y'',
                          mkBundle (mainAnalyzers (\<lambda>s. s)) ''/tmp/b.txt'' 1 ''z'']\<rparr>
   \<and> complete twoFiles (mainAnalyzers (\<lambda>s. s))
         (mkBundle (mainAnalyzers (\<lambda>s. s)) ''/tmp/a.txt'' 3 ''x y'')
   \<and> Results (mkBundle (mainAnalyzers (\<lambda>s. s)) ''/tmp/a.txt'' 3 ''x y'')
       = [Analyze WordCountAnalyzer ''x y'', Analyze LineCountAnalyzer ''x y'',
          Analyze (MostFrequentWordsAnalyzer (\<lambda>s. s)) ''x y'']
   \<and> workerStep twoFiles testAnalyzers Join
         (Analysing ''/tmp/b.txt'' 1 ''z''
            [Analyze WordCountAnalyzer ''z'', Analyze LineCountAnalyzer ''z''] [])
       = Some (Sending \<lparr>FileName = Base ''/tmp/b.txt'', Size = 1,
                        Results = [Analyze WordCountAnalyzer ''z'',
                                   Analyze LineCountAnalyzer ''z'']\<rparr>)"
proof -
  have "complete twoFiles testAnalyzers (mkBundle testAnalyzers ''/tmp/b.txt'' 1 ''z'')"
  proof (rule emitted_bundles_complete [THEN conjunct1, rule_format])
    show "run twoFiles testAnalyzers interleaved (start [''/tmp/a.txt'', ''/tmp/b.txt''] 2)
        = Some \<lparr>toSend = [], pathsClosed = True, workers = [Done, Done], resultsClosed = True,
             out = [mkBundle testAnalyzers ''/tmp/b.txt'' 1 ''z'',
                    mkBundle testAnalyzers ''/tmp/a.txt'' 3 ''x y''],
             returned = Some ([mkBundle testAnalyzers ''/tmp/b.txt'' 1 ''z'',
                               mkBundle testAnalyzers ''/tmp/a.txt'' 3 ''x y''], None)\<rparr>
      \<and> (mkBundle testAnalyzers ''/tmp/b.txt'' 1 ''z''
            \<in> set (out \<lparr>toSend = [], pathsClosed = True, workers = [Done, Done],
                 resultsClosed = True,
                 out = [mkBundle testAnalyzers ''/tmp/b.txt'' 1 ''z'',
                        mkBundle testAnalyzers ''/tmp/a.txt'' 3 ''x y''],
                 returned = Some ([mkBundle testAnalyzers ''/tmp/b.txt'' 1 ''z'',
                                   mkBundle testAnalyzers ''/tmp/a.txt'' 3 ''x y''], None)\<rparr>)
          \<or> Sending (mkBundle testAnalyzers ''/tmp/b.txt'' 1 ''z'')
            \<in> set (workers \<lparr>toSend = [], pathsClosed = True, workers = [Done, Done],
                 resultsClosed = True,
                 out = [mkBundle testAnalyzers ''/tmp/b.txt'' 1 ''z'',
                        mkBundle testAnalyzers ''/tmp/a.txt'' 3 ''x y''],
                 returned = Some ([mkBundle testAnalyzers ''/tmp/b.txt'' 1 ''z'',
                                   mkBundle testAnalyzers ''/tmp/a.txt'' 3 ''x y''], None)\<rparr>))"
      by (simp add: pool_interleaved_state)
  qed
  moreover
  have "complete twoFiles (mainAnalyzers (\<lambda>s. s))
         (mkBundle (mainAnalyzers (\<lambda>s. s)) ''/tmp/a.txt'' 3 ''x y'')"
  proof (rule emitted_bundles_complete [THEN conjunct2, THEN conjunct1, rule_format])
    show "pipeRun twoFiles (mainAnalyzers (\<lambda>s. s)) pipeInterleaved
         (pipeStart [''/tmp/a.txt'', ''/tmp/b.txt''] 2)
        = Some \<lparr>cancelled = False, toFeed = [], filePathsClosed = True, filePaths = [],
             poolWorkers = [Done, Done], resultsDone = True,
             delivered = [mkBundle (mainAnalyzers (\<lambda>s. s)) ''/tmp/a.txt'' 3 ''x y'',
                          mkBundle (mainAnalyzers (\<lambda>s. s)) ''/tmp/b.txt'' 1 ''z'']\<rparr>
      \<and> (mkBundle (mainAnalyzers (\<lambda>s. s)) ''/tmp/a.txt'' 3 ''x y''
            \<in> set (delivered \<lparr>cancelled = False, toFeed = [], filePathsClosed = True,
                 filePaths = [], poolWorkers = [Done, Done], resultsDone = True,
                 delivered = [mkBundle (mainAnalyzers (\<lambda>s. s)) ''/tmp/a.txt'' 3 ''x y'',
                              mkBundle (mainAnalyzers (\<lambda>s. s)) ''/tmp/b.txt'' 1 ''z'']\<rparr>)
          \<or> Sending (mkBundle (mainAnalyzers (\<lambda>s. s)) ''/tmp/a.txt'' 3 ''x y'')
            \<in> set (poolWorkers \<lparr>cancelled = False, toFeed = [], filePathsClosed = True,
                 filePaths = [], poolWorkers = [Done, Done], resultsDone = True,
                 delivered = [mkBundle (mainAnalyzers (\<lambda>s. s)) ''/tmp/a.txt'' 3 ''x y'',
                              mkBundle (mainAnalyzers (\<lambda>s. s)) ''/tmp/b.txt'' 1 ''z'']\<rparr>))"
      by (simp add: pipe_interleaved_state)
  qed
  ultimately show ?thesis
    using pool_interleaved_state pipe_interleaved_state
    by (simp add: mkBundle_def testAnalyzers_def mainAnalyzers_def)
qed

subsection \<open>Cancellation in the interactive pool\<close>

lemma cancelDuringPush_state:
  "pipeRun twoFiles (mainAnalyzers (\<lambda>s. s)) cancelDuringPush (pipeStart [''/tmp/a.txt''] 1)
     = Some blockedOnPush"
  by (simp add: cancelDuringPush_def blockedOnPush_def pipeStart_def mainAnalyzers_def
      read_twoFiles mkBundle_def zeroResult_def eval_nat_numeral)

lemma Done_stays:
  assumes "list_all (\<lambda>w. w = Done) (poolWorkers s)" and "pipeStep env as a s = Some s'"
  shows "list_all (\<lambda>w. w = Done) (poolWorkers s')"
proof (cases a)
  case (Pull i)
  with assms show ?thesis
    using list_all_nth [of "\<lambda>w. w = Done" "poolWorkers s" i]
    by (auto split: list.splits if_splits)
next
  case (PullClosed i)
  with assms show ?thesis by (auto split: if_splits intro: list_all_update)
next
  case (PullCancelled i)
  with assms show ?thesis by (auto split: if_splits intro: list_all_update)
next
  case (Work i l)
  with assms obtain w where i: "i < length (poolWorkers s)"
    and ws: "workerStep env as l (poolWorkers s ! i) = Some w"
    by (auto split: option.splits if_splits)
  from workerStep_not_Done [OF ws] list_all_nth [OF assms(1) i] show ?thesis by simp
next
  case (Push i)
  with assms show ?thesis
    using list_all_nth [of "\<lambda>w. w = Done" "poolWorkers s" i]
    by (auto split: worker.splits if_splits)
qed (use assms in \<open>auto split: if_splits list.splits\<close>)

lemma closeInv_step:
  assumes "closeInv s" and "pipeStep env as a s = Some s'"
  shows "closeInv s'"
proof (cases "resultsDone s")
  case True
  with assms(1) have "list_all (\<lambda>w. w = Done) (poolWorkers s)" by (simp add: closeInv_def)
  from Done_stays [OF this assms(2)] show ?thesis by (simp add: closeInv_def)
next
  case False
  show ?thesis
  proof (cases a)
    case CloseOut
    with assms(2) show ?thesis by (auto simp: closeInv_def split: if_splits)
  next
    case (Work i l)
    with assms(2) False show ?thesis
      by (auto simp: closeInv_def split: if_splits option.splits)
  next
    case (Push i)
    with assms(2) False show ?thesis
      by (auto simp: closeInv_def split: if_splits worker.splits)
  qed (use assms(2) False in \<open>auto simp: closeInv_def split: if_splits list.splits\<close>)
qed

lemma closeInv_run:
  "closeInv s \<Longrightarrow> pipeRun env as acts s = Some s' \<Longrightarrow> closeInv s'"
  by (induction acts arbitrary: s) (auto split: option.splits dest: closeInv_step)

lemma closeInv_start: "closeInv (pipeStart files n)"
  by (simp add: closeInv_def pipeStart_def)

lemma Sending_steps:
  assumes i: "i < length (poolWorkers s)" and wi: "poolWorkers s ! i = Sending r"
    and st: "pipeStep env as a s = Some s'"
  shows "(a = Push i \<and> delivered s' = delivered s @ [r] \<and> poolWorkers s' ! i = Receiving)
         \<or> poolWorkers s' ! i = Sending r"
proof (cases a)
  case (Pull j)
  with st i wi show ?thesis
    by (cases "j = i") (auto split: list.splits if_splits)
next
  case (PullClosed j)
  with st i wi show ?thesis
    by (cases "j = i") (auto split: if_splits)
next
  case (PullCancelled j)
  with st i wi show ?thesis
    by (cases "j = i") (auto split: if_splits)
next
  case (Work j l)
  with st i wi show ?thesis
    by (cases "j = i") (auto split: if_splits option.splits)
next
  case (Push j)
  with st i wi show ?thesis
    by (cases "j = i") (auto split: if_splits worker.splits)
qed (use st wi in \<open>auto split: if_splits list.splits\<close>)

text \<open>
  C3, as the code has it. In the interactive pool the signal is consulted only in the
  \<open>select\<close> where a worker pulls the next path: there, and only there, a worker may exit
  because the signal has fired. The push of a result does not consult the signal: a
  worker blocked on a push never exits from there; in every state the pool reaches, its
  push can complete, fired signal or not, which delivers the bundle and takes the worker
  back to the pull. The steps of an analysis do not depend on the signal.
\<close>

theorem cancellation_checked_at_pull_only:
  "(pipeStep env analyzers (PullCancelled i) s \<noteq> None \<longleftrightarrow>
      i < length (poolWorkers s) \<and> poolWorkers s ! i = Receiving \<and> cancelled s)
   \<and> (i < length (poolWorkers s) \<and> poolWorkers s ! i = Sending r
        \<and> pipeStep env analyzers a s = Some s' \<longrightarrow>
          (a = Push i \<and> delivered s' = delivered s @ [r] \<and> poolWorkers s' ! i = Receiving)
          \<or> poolWorkers s' ! i = Sending r)
   \<and> (pipeRun env analyzers schedule (pipeStart files workerCount) = Some s
        \<and> i < length (poolWorkers s) \<and> poolWorkers s ! i = Sending r \<longrightarrow>
          pipeStep env analyzers (Push i) s
            = Some (s\<lparr>delivered := delivered s @ [r],
                      poolWorkers := (poolWorkers s)[i := Receiving]\<rparr>))
   \<and> pipeStep env analyzers (Work i l) (s\<lparr>cancelled := c\<rparr>)
       = map_option (\<lambda>t. t\<lparr>cancelled := c\<rparr>) (pipeStep env analyzers (Work i l) s)"
proof (intro conjI impI)
  show "pipeStep env analyzers (PullCancelled i) s \<noteq> None \<longleftrightarrow>
      i < length (poolWorkers s) \<and> poolWorkers s ! i = Receiving \<and> cancelled s"
    by simp
next
  assume "i < length (poolWorkers s) \<and> poolWorkers s ! i = Sending r
        \<and> pipeStep env analyzers a s = Some s'"
  then show "(a = Push i \<and> delivered s' = delivered s @ [r] \<and> poolWorkers s' ! i = Receiving)
          \<or> poolWorkers s' ! i = Sending r"
    using Sending_steps by blast
next
  assume a: "pipeRun env analyzers schedule (pipeStart files workerCount) = Some s
        \<and> i < length (poolWorkers s) \<and> poolWorkers s ! i = Sending r"
  then have "closeInv s" using closeInv_run [OF closeInv_start] by blast
  with a have "\<not> resultsDone s"
    using list_all_nth [of "\<lambda>w. w = Done" "poolWorkers s" i] by (auto simp: closeInv_def)
  with a show "pipeStep env analyzers (Push i) s
            = Some (s\<lparr>delivered := delivered s @ [r],
                      poolWorkers := (poolWorkers s)[i := Receiving]\<rparr>)"
    by simp
next
  show "pipeStep env analyzers (Work i l) (s\<lparr>cancelled := c\<rparr>)
       = map_option (\<lambda>t. t\<lparr>cancelled := c\<rparr>) (pipeStep env analyzers (Work i l) s)"
    by (simp split: option.splits)
qed

text \<open>
  The signal is not consulted at the push. One worker, one file: the signal fires while
  the worker is blocked on its push. From the state reached the worker cannot leave by
  the cancellation case of its \<open>select\<close> (nor by the closed channel), and the push
  completes and delivers the bundle.
\<close>

theorem push_completes_after_cancel:
  "pipeRun twoFiles (mainAnalyzers (\<lambda>s. s)) cancelDuringPush (pipeStart [''/tmp/a.txt''] 1)
     = Some blockedOnPush
   \<and> cancelled blockedOnPush
   \<and> poolWorkers blockedOnPush
       = [Sending (mkBundle (mainAnalyzers (\<lambda>s. s)) ''/tmp/a.txt'' 3 ''x y'')]
   \<and> pipeStep twoFiles (mainAnalyzers (\<lambda>s. s)) (PullCancelled 0) blockedOnPush = None
   \<and> pipeStep twoFiles (mainAnalyzers (\<lambda>s. s)) (PullClosed 0) blockedOnPush = None
   \<and> pipeStep twoFiles (mainAnalyzers (\<lambda>s. s)) (Push 0) blockedOnPush
       = Some \<lparr>cancelled = True, toFeed = [], filePathsClosed = False, filePaths = [],
               poolWorkers = [Receiving], resultsDone = False,
               delivered = [mkBundle (mainAnalyzers (\<lambda>s. s)) ''/tmp/a.txt'' 3 ''x y'']\<rparr>"
  by (simp add: cancelDuringPush_state) (simp add: blockedOnPush_def)

text \<open>
  The theorem on the same execution: back at the pull, with the signal fired, the worker
  can exit; blocked on the push, its push completes.
\<close>

theorem cancellation_checked_at_pull_only_witness:
  "pipeStep twoFiles (mainAnalyzers (\<lambda>s. s)) (PullCancelled 0)
       (blockedOnPush\<lparr>poolWorkers := [Receiving]\<rparr>) \<noteq> None
   \<and> pipeRun twoFiles (mainAnalyzers (\<lambda>s. s)) cancelDuringPush (pipeStart [''/tmp/a.txt''] 1)
       = Some blockedOnPush
   \<and> 0 < length (poolWorkers blockedOnPush)
   \<and> poolWorkers blockedOnPush ! 0
       = Sending (mkBundle (mainAnalyzers (\<lambda>s. s)) ''/tmp/a.txt'' 3 ''x y'')
   \<and> pipeStep twoFiles (mainAnalyzers (\<lambda>s. s)) (Push 0) blockedOnPush
       = Some (blockedOnPush
                 \<lparr>delivered := delivered blockedOnPush
                                 @ [mkBundle (mainAnalyzers (\<lambda>s. s)) ''/tmp/a.txt'' 3 ''x y''],
                  poolWorkers := (poolWorkers blockedOnPush)[0 := Receiving]\<rparr>)
   \<and> poolWorkers (blockedOnPush
                 \<lparr>delivered := delivered blockedOnPush
                                 @ [mkBundle (mainAnalyzers (\<lambda>s. s)) ''/tmp/a.txt'' 3 ''x y''],
                  poolWorkers := (poolWorkers blockedOnPush)[0 := Receiving]\<rparr>) ! 0 = Receiving"
proof -
  let ?as = "mainAnalyzers (\<lambda>s. s)"
  let ?r = "mkBundle ?as ''/tmp/a.txt'' 3 ''x y''"
  have len: "0 < length (poolWorkers blockedOnPush)"
    and w0: "poolWorkers blockedOnPush ! 0 = Sending ?r"
    by (simp_all add: blockedOnPush_def)
  note inst = cancellation_checked_at_pull_only
    [of twoFiles ?as 0 "blockedOnPush\<lparr>poolWorkers := [Receiving]\<rparr>"]
  have pc: "pipeStep twoFiles ?as (PullCancelled 0) (blockedOnPush\<lparr>poolWorkers := [Receiving]\<rparr>)
      \<noteq> None"
    using inst by (simp add: blockedOnPush_def)
  from cancellation_checked_at_pull_only
    [of twoFiles ?as 0 blockedOnPush ?r "Push 0"
      "blockedOnPush\<lparr>delivered := delivered blockedOnPush @ [?r],
                      poolWorkers := (poolWorkers blockedOnPush)[0 := Receiving]\<rparr>"
      cancelDuringPush "[''/tmp/a.txt'']" 1]
    cancelDuringPush_state len w0
  have push: "pipeStep twoFiles ?as (Push 0) blockedOnPush
       = Some (blockedOnPush\<lparr>delivered := delivered blockedOnPush @ [?r],
                  poolWorkers := (poolWorkers blockedOnPush)[0 := Receiving]\<rparr>)"
    by blast
  have "poolWorkers (blockedOnPush\<lparr>delivered := delivered blockedOnPush @ [?r],
                  poolWorkers := (poolWorkers blockedOnPush)[0 := Receiving]\<rparr>) ! 0 = Receiving"
    by (simp add: blockedOnPush_def)
  with pc cancelDuringPush_state len w0 push show ?thesis by blast
qed

subsection \<open>The filter stage\<close>

lemma showLoop_no_word_count:
  "filter (\<lambda>r. NameAnalyzer r = ''word_count'') rs = [] \<Longrightarrow> showLoop rs = Inr True"
  by (induction rs) (auto split: if_splits)

lemma showLoop_one_word_count:
  "filter (\<lambda>r. NameAnalyzer r = ''word_count'') rs = [r] \<Longrightarrow> Data r = IntData n
     \<Longrightarrow> showLoop rs = Inr (2 \<le> n)"
proof (induction rs)
  case Nil
  then show ?case by simp
next
  case (Cons x xs)
  show ?case
  proof (cases "NameAnalyzer x = ''word_count''")
    case True
    with Cons.prems have "x = r" "filter (\<lambda>r. NameAnalyzer r = ''word_count'') xs = []"
      by simp_all
    with True Cons.prems(2) showLoop_no_word_count [of xs] show ?thesis
      by auto
  next
    case False
    with Cons show ?thesis by simp
  qed
qed

lemma showLoop_wordCountOf:
  "wordCountOf res = Some n \<Longrightarrow> showLoop (Results res) = Inr (2 \<le> n)"
  unfolding wordCountOf_def
  by (auto split: list.splits Data.splits intro: showLoop_one_word_count)

lemma filterLoop_filter:
  "\<forall>res\<in>set results. wordCountOf res \<noteq> None
     \<Longrightarrow> filterLoop results acc = Inr (acc @ filter atLeastTwoWords results)"
proof (induction results arbitrary: acc)
  case Nil
  then show ?case by simp
next
  case (Cons res results)
  then obtain n where n: "wordCountOf res = Some n" by auto
  from showLoop_wordCountOf [OF n] Cons n show ?case
    by (simp add: atLeastTwoWords_def)
qed

lemma wordCountOf_main:
  "wordCountOf (mkBundle (mainAnalyzers uni) path sz content)
     = Some (int (length (Fields content)))"
  by (simp add: wordCountOf_def mkBundle_def mainAnalyzers_def WordCountAnalyzer_def
      LineCountAnalyzer_def MostFrequentWordsAnalyzer_def WordCount_Analyze_def
      LineCount_Analyze_def MostFrequentWords_Analyze_def)

lemma delivered_main:
  assumes "pipeRun env (mainAnalyzers uni) schedule (pipeStart files n) = Some s"
    and "res \<in> set (delivered s)"
  shows "wordCountOf res \<noteq> None"
proof -
  from pipeRun_inv [OF pipeStart_inv assms(1)] assms(2)
  have "wellFormed env (mainAnalyzers uni) (Sending res)"
    by (auto simp: pipeInv_def list_all_iff)
  then show ?thesis by (auto simp: wordCountOf_main)
qed

text \<open>
  C4. On a stream of bundles that each have a WordCount result, the filter stage of the
  interactive pipeline forwards exactly the bundles whose WordCount result is at least 2,
  in the order received. Every bundle that the pool of the interactive pipeline delivers
  has a WordCount result, the number of words of its file.
\<close>

theorem filter_stage_forwards_two_or_more_words:
  "((\<forall>res\<in>set results. wordCountOf res \<noteq> None) \<longrightarrow>
      filterStage results = Inr (filter atLeastTwoWords results))
   \<and> (pipeRun env (mainAnalyzers uni) schedule (pipeStart files workerCount) = Some s \<longrightarrow>
      filterStage (delivered s) = Inr (filter atLeastTwoWords (delivered s)))
   \<and> wordCountOf (mkBundle (mainAnalyzers uni) path sz content)
       = Some (int (length (Fields content)))"
proof (intro conjI impI)
  assume "\<forall>res\<in>set results. wordCountOf res \<noteq> None"
  from filterLoop_filter [OF this, of "[]"]
  show "filterStage results = Inr (filter atLeastTwoWords results)"
    by (simp add: filterStage_def)
next
  assume "pipeRun env (mainAnalyzers uni) schedule (pipeStart files workerCount) = Some s"
  from delivered_main [OF this] have "\<forall>res\<in>set (delivered s). wordCountOf res \<noteq> None"
    by blast
  from filterLoop_filter [OF this, of "[]"]
  show "filterStage (delivered s) = Inr (filter atLeastTwoWords (delivered s))"
    by (simp add: filterStage_def)
next
  show "wordCountOf (mkBundle (mainAnalyzers uni) path sz content)
       = Some (int (length (Fields content)))"
    by (rule wordCountOf_main)
qed

text \<open>
  The theorem on bundles with 1, 2 and 5 words, and on the stream the interactive pool
  delivers for the two files.
\<close>

lemma Fields_abc:
  "Fields ''a'' = [''a'']" "Fields ''a b'' = [''a'', ''b'']"
  "Fields ''a b c d e'' = [''a'', ''b'', ''c'', ''d'', ''e'']"
  by code_simp+

theorem filter_stage_forwards_two_or_more_words_witness:
  "wordCountOf (mkBundle (mainAnalyzers (\<lambda>s. s)) ''one.txt'' 1 ''a'') = Some 1
   \<and> wordCountOf (mkBundle (mainAnalyzers (\<lambda>s. s)) ''two.txt'' 3 ''a b'') = Some 2
   \<and> wordCountOf (mkBundle (mainAnalyzers (\<lambda>s. s)) ''five.txt'' 9 ''a b c d e'') = Some 5
   \<and> filterStage [mkBundle (mainAnalyzers (\<lambda>s. s)) ''one.txt'' 1 ''a'',
                  mkBundle (mainAnalyzers (\<lambda>s. s)) ''two.txt'' 3 ''a b'',
                  mkBundle (mainAnalyzers (\<lambda>s. s)) ''five.txt'' 9 ''a b c d e'']
       = Inr [mkBundle (mainAnalyzers (\<lambda>s. s)) ''two.txt'' 3 ''a b'',
              mkBundle (mainAnalyzers (\<lambda>s. s)) ''five.txt'' 9 ''a b c d e'']
   \<and> pipeRun twoFiles (mainAnalyzers (\<lambda>s. s)) pipeInterleaved
         (pipeStart [''/tmp/a.txt'', ''/tmp/b.txt''] 2)
       = Some \<lparr>cancelled = False, toFeed = [], filePathsClosed = True, filePaths = [],
               poolWorkers = [Done, Done], resultsDone = True,
               delivered = [mkBundle (mainAnalyzers (\<lambda>s. s)) ''/tmp/a.txt'' 3 ''x y'',
                            mkBundle (mainAnalyzers (\<lambda>s. s)) ''/tmp/b.txt'' 1 ''z'']\<rparr>
   \<and> filterStage [mkBundle (mainAnalyzers (\<lambda>s. s)) ''/tmp/a.txt'' 3 ''x y'',
                  mkBundle (mainAnalyzers (\<lambda>s. s)) ''/tmp/b.txt'' 1 ''z'']
       = Inr [mkBundle (mainAnalyzers (\<lambda>s. s)) ''/tmp/a.txt'' 3 ''x y'']"
proof -
  let ?as = "mainAnalyzers (\<lambda>s. s)"
  let ?b1 = "mkBundle ?as ''one.txt'' 1 ''a''"
  let ?b2 = "mkBundle ?as ''two.txt'' 3 ''a b''"
  let ?b5 = "mkBundle ?as ''five.txt'' 9 ''a b c d e''"
  let ?ba = "mkBundle ?as ''/tmp/a.txt'' 3 ''x y''"
  let ?bb = "mkBundle ?as ''/tmp/b.txt'' 1 ''z''"
  have "Fields ''x y'' = [''x'', ''y'']" "Fields ''z'' = [''z'']" by code_simp+
  then have wc: "wordCountOf ?b1 = Some 1" "wordCountOf ?b2 = Some 2" "wordCountOf ?b5 = Some 5"
    "wordCountOf ?ba = Some 2" "wordCountOf ?bb = Some 1"
    by (simp_all add: wordCountOf_main Fields_abc)
  then have al: "\<not> atLeastTwoWords ?b1" "atLeastTwoWords ?b2" "atLeastTwoWords ?b5"
    "atLeastTwoWords ?ba" "\<not> atLeastTwoWords ?bb"
    by (simp_all add: atLeastTwoWords_def)
  have "\<forall>res\<in>set [?b1, ?b2, ?b5]. wordCountOf res \<noteq> None"
    using wc by simp
  with filter_stage_forwards_two_or_more_words [of "[?b1, ?b2, ?b5]"]
  have "filterStage [?b1, ?b2, ?b5] = Inr (filter atLeastTwoWords [?b1, ?b2, ?b5])"
    by blast
  with al have f1: "filterStage [?b1, ?b2, ?b5] = Inr [?b2, ?b5]" by simp
  from filter_stage_forwards_two_or_more_words
    [of "[]" twoFiles "\<lambda>s. s" pipeInterleaved "[''/tmp/a.txt'', ''/tmp/b.txt'']" 2]
    pipe_interleaved_state
  have "filterStage [?ba, ?bb] = Inr (filter atLeastTwoWords [?ba, ?bb])"
    by (metis pipeline.select_convs(7))
  with al have f2: "filterStage [?ba, ?bb] = Inr [?ba]" by simp
  from wc f1 f2 pipe_interleaved_state show ?thesis by simp
qed

subsection \<open>The aggregator\<close>

lemma mergeLoop_adds:
  "distinct (map fst entries) \<Longrightarrow>
     mergeLoop entries gm
       = (\<lambda>word. case map_of entries word of
                   None \<Rightarrow> gm word
                 | Some cnt \<Rightarrow> Some (get0 gm word + cnt))"
proof (induction entries arbitrary: gm)
  case Nil
  then show ?case by simp
next
  case (Cons e entries)
  obtain w c where e: "e = (w, c)" by (cases e)
  from Cons.prems e have d: "distinct (map fst entries)" and nw: "w \<notin> fst ` set entries"
    by auto
  from nw have none: "map_of entries w = None" by (simp add: map_of_eq_None_iff)
  show ?case
    unfolding e mergeLoop.simps Cons.IH [OF d]
    by (rule ext) (auto simp: none get0_def split: option.splits)
qed

lemma mset_insertLess: "mset (insertLess lt x xs) = add_mset x (mset xs)"
  by (induction xs) auto

lemma mset_sortSlice: "mset (sortSlice lt xs) = mset xs"
  by (induction xs) (auto simp: mset_insertLess)

lemma set_insertLess: "set (insertLess lt x xs) = insert x (set xs)"
  by (induction xs) auto

lemma sorted_insertLess:
  "sorted_wrt (\<lambda>a b. Count b \<le> Count a) xs \<Longrightarrow>
     sorted_wrt (\<lambda>a b. Count b \<le> Count a) (insertLess (\<lambda>a b. Count a > Count b) x xs)"
  by (induction xs) (auto simp: set_insertLess)

lemma sorted_sortSlice:
  "sorted_wrt (\<lambda>a b. Count b \<le> Count a) (sortSlice (\<lambda>a b. Count a > Count b) xs)"
  by (induction xs) (auto simp: sorted_insertLess)

lemma length_sortSlice: "length (sortSlice lt xs) = length xs"
  using mset_sortSlice [of lt xs] by (metis size_mset)

lemma ranges_card: "ranges entries m \<Longrightarrow> card (dom m) = length entries"
  unfolding ranges_def
  by (metis distinct_card dom_map_of_conv_image_fst length_map list.set_map)

lemma ranges_entry:
  "ranges entries m \<Longrightarrow> (w, c) \<in> set entries \<longleftrightarrow> m w = Some c"
  unfolding ranges_def by (metis map_of_eq_Some_iff)

lemma topWordsReport_sorted_prefix:
  assumes n: "0 < topWords" and r: "ranges (ord gm) gm"
  shows "\<exists>words.
           topWordsReport ord gm topWords = take (min (nat topWords) (card (dom gm))) words
           \<and> sorted_wrt (\<lambda>a b. Count b \<le> Count a) words
           \<and> length words = card (dom gm)
           \<and> (\<forall>w c. \<lparr>Word = w, Count = c\<rparr> \<in> set words \<longleftrightarrow> gm w = Some c)"
proof -
  let ?entries = "map (\<lambda>(w, c). \<lparr>Word = w, Count = c\<rparr>) (ord gm)"
  let ?words = "sortSlice (\<lambda>a b. Count a > Count b) ?entries"
  have len: "length ?words = card (dom gm)"
    by (simp add: length_sortSlice ranges_card [OF r])
  have "(if topWords > int (length ?words) then int (length ?words) else topWords)
          = int (min (nat topWords) (length ?words))"
    using n by auto
  then have "topWordsReport ord gm topWords = take (min (nat topWords) (length ?words)) ?words"
    using n by (simp add: topWordsReport_def Let_def del: length_map)
  then have 1: "topWordsReport ord gm topWords = take (min (nat topWords) (card (dom gm))) ?words"
    by (simp only: len)
  have "set ?words = set ?entries"
    using mset_sortSlice [of "\<lambda>a b. Count a > Count b" ?entries] by (metis set_mset_mset)
  moreover have "\<lparr>Word = w, Count = c\<rparr> \<in> set ?entries \<longleftrightarrow> (w, c) \<in> set (ord gm)" for w c
    by (force simp: image_iff intro: bexI [where x = "(w, c)"])
  ultimately have 2: "\<lparr>Word = w, Count = c\<rparr> \<in> set ?words \<longleftrightarrow> gm w = Some c" for w c
    using ranges_entry [OF r, of w c] by simp
  from 1 2 len sorted_sortSlice [of ?entries] show ?thesis by blast
qed

lemma topWordsReport_length_sorted:
  assumes n: "0 < topWords" and r: "ranges (ord gm) gm"
  shows "length (topWordsReport ord gm topWords) = min (nat topWords) (card (dom gm))"
    and "sorted_wrt (\<lambda>a b. Count b \<le> Count a) (topWordsReport ord gm topWords)"
proof -
  from topWordsReport_sorted_prefix [where ord = ord and gm = gm, OF n r] obtain words where
    w: "topWordsReport ord gm topWords = take (min (nat topWords) (card (dom gm))) words"
    "sorted_wrt (\<lambda>a b. Count b \<le> Count a) words" "length words = card (dom gm)"
    by blast
  show "length (topWordsReport ord gm topWords) = min (nat topWords) (card (dom gm))"
    by (simp add: w(1) w(3))
  show "sorted_wrt (\<lambda>a b. Count b \<le> Count a) (topWordsReport ord gm topWords)"
    unfolding w(1) using w(2) by (rule sorted_wrt_take)
qed

lemma consume_frequencies:
  assumes "ranges (ord freq) freq"
  shows "resultsLoop ord [\<lparr>NameAnalyzer = ''most_frequent_words'', Data = FreqData freq\<rparr>] t
    = Inr (t\<lparr>globalMap := (\<lambda>word. case freq word of
                                    None \<Rightarrow> globalMap t word
                                  | Some cnt \<Rightarrow> Some (get0 (globalMap t) word + cnt))\<rparr>)"
proof -
  from assms have "distinct (map fst (ord freq))" "map_of (ord freq) = freq"
    by (simp_all add: ranges_def)
  with mergeLoop_adds [of "ord freq" "globalMap t"] show ?thesis by simp
qed

lemma example_aggregate:
  assumes "ranges (ord [''a'' \<mapsto> 1, ''b'' \<mapsto> 2]) [''a'' \<mapsto> 1, ''b'' \<mapsto> 2]"
    and "ranges (ord [''a'' \<mapsto> 3]) [''a'' \<mapsto> 3]"
  shows "aggregate ord [freqBundle ''f1'' [''a'' \<mapsto> 1, ''b'' \<mapsto> 2], freqBundle ''f2'' [''a'' \<mapsto> 3]]
    = Inr \<lparr>totalWords = 0, totalLines = 0, globalMap = [''a'' \<mapsto> 4, ''b'' \<mapsto> 2]\<rparr>"
proof -
  have "(\<lambda>word. case [''a'' \<mapsto> 3] word of
                 None \<Rightarrow> (case [''a'' \<mapsto> 1, ''b'' \<mapsto> 2] word of
                            None \<Rightarrow> Map.empty word
                          | Some cnt \<Rightarrow> Some (get0 Map.empty word + cnt))
               | Some cnt \<Rightarrow>
                   Some (get0 (\<lambda>word. case [''a'' \<mapsto> 1, ''b'' \<mapsto> 2] word of
                                         None \<Rightarrow> Map.empty word
                                       | Some cnt \<Rightarrow> Some (get0 Map.empty word + cnt)) word + cnt))
        = [''a'' \<mapsto> (4::int), ''b'' \<mapsto> 2]"
    by (rule ext) (simp add: get0_def)
  then show ?thesis
    unfolding aggregate_def freqBundle_def aggregateLoop.simps
    by (simp only: FileAnalysisResult.simps
        consume_frequencies [where ord = ord and freq = "[''a'' \<mapsto> 1, ''b'' \<mapsto> 2]", OF assms(1)]
        consume_frequencies [where ord = ord and freq = "[''a'' \<mapsto> 3]", OF assms(2)]
        sum.case totals.simps)
qed

lemma example_top:
  assumes "ranges (ord [''a'' \<mapsto> 4, ''b'' \<mapsto> 2]) [''a'' \<mapsto> 4, ''b'' \<mapsto> 2]"
  shows "topWordsReport ord [''a'' \<mapsto> 4, ''b'' \<mapsto> 2] 1 = [\<lparr>Word = ''a'', Count = 4\<rparr>]"
proof -
  let ?gm = "[''a'' \<mapsto> 4, ''b'' \<mapsto> (2::int)]"
  have "dom ?gm = {''a'', ''b''}" by auto
  then have card: "card (dom ?gm) = 2" by simp
  have "(0::int) < 1" by simp
  from topWordsReport_sorted_prefix [where ord = ord and gm = ?gm, OF this assms] obtain words where
    rep: "topWordsReport ord ?gm 1 = take (min (nat 1) (card (dom ?gm))) words"
    and srt: "sorted_wrt (\<lambda>a b. Count b \<le> Count a) words"
    and len: "length words = card (dom ?gm)"
    and mem: "\<And>w c. \<lparr>Word = w, Count = c\<rparr> \<in> set words \<longleftrightarrow> ?gm w = Some c"
    by auto
  from len card obtain p q where pq: "words = [p, q]"
    by (cases words; cases "tl words") auto
  have only: "x = \<lparr>Word = ''a'', Count = 4\<rparr> \<or> x = \<lparr>Word = ''b'', Count = 2\<rparr>"
    if "x \<in> set words" for x
  proof -
    have "x = \<lparr>Word = Word x, Count = Count x\<rparr>" by simp
    with that mem [of "Word x" "Count x"] have "?gm (Word x) = Some (Count x)" by simp
    then show ?thesis by (cases x) (auto split: if_splits)
  qed
  from mem [of "''a''" 4] have a: "\<lparr>Word = ''a'', Count = 4\<rparr> \<in> set words" by simp
  from mem [of "''b''" 2] have b: "\<lparr>Word = ''b'', Count = 2\<rparr> \<in> set words" by simp
  from only [of p] only [of q] a b srt pq have "p = \<lparr>Word = ''a'', Count = 4\<rparr>"
    by auto
  with rep card pq show ?thesis by simp
qed

lemma mergeLoop_mergeInto:
  assumes "ranges entries freq"
  shows "mergeLoop entries gm = mergeInto gm freq"
proof -
  from assms have "distinct (map fst entries)" "map_of entries = freq"
    by (simp_all add: ranges_def)
  with mergeLoop_adds [of entries gm] show ?thesis by (simp add: mergeInto_def)
qed

lemma freqLoop_wordFrequencies:
  "freqLoop uni (whitespaceTokens content) Map.empty = wordFrequencies uni content"
  unfolding wordFrequencies_def
  by (rule ext) (simp add: freqLoop_count)

lemma resultsLoop_mainBundle:
  assumes "ranges (ord (wordFrequencies uni content)) (wordFrequencies uni content)"
  shows "resultsLoop ord (Results (mainBundle uni (path, sz, content))) t
           = Inr (addFile uni t (path, sz, content))"
  using mergeLoop_mergeInto [OF assms, of "globalMap t"]
  by (simp add: mainBundle_def mkBundle_def mainAnalyzers_def WordCountAnalyzer_def
      LineCountAnalyzer_def MostFrequentWordsAnalyzer_def WordCount_Analyze_def
      LineCount_Analyze_def MostFrequentWords_Analyze_def freqLoop_wordFrequencies
      addFile_def Fields_tokens Count_filter)

lemma aggregateLoop_mainBundles:
  assumes "\<forall>f\<in>set fs. ranges (ord (wordFrequencies uni (snd (snd f))))
                                (wordFrequencies uni (snd (snd f)))"
  shows "aggregateLoop ord (map (mainBundle uni) fs) t = Inr (foldl (addFile uni) t fs)"
  using assms
proof (induction fs arbitrary: t)
  case Nil
  then show ?case by simp
next
  case (Cons f fs)
  obtain path sz content where f: "f = (path, sz, content)" by (cases f)
  from Cons.prems f have "ranges (ord (wordFrequencies uni content)) (wordFrequencies uni content)"
    by simp
  from resultsLoop_mainBundle [where ord = ord and uni = uni and content = content
      and path = path and sz = sz and t = t, OF this] Cons
  show ?case by (simp add: f)
qed

lemma bundles_of_files:
  assumes "\<forall>r\<in>set rs. wellFormed env (mainAnalyzers uni) (Sending r)"
  shows "\<exists>fs. rs = map (mainBundle uni) fs
           \<and> (\<forall>f\<in>set fs. readFileContent env (fst f) = Inr (snd (snd f), fst (snd f)))"
  using assms
proof (induction rs)
  case Nil
  show ?case by (rule exI [where x = "[]"]) simp
next
  case (Cons r rs)
  then obtain fs where fs: "rs = map (mainBundle uni) fs"
    "\<forall>f\<in>set fs. readFileContent env (fst f) = Inr (snd (snd f), fst (snd f))"
    by auto
  from Cons.prems obtain p c sz where "readFileContent env p = Inr (c, sz)"
    "r = mkBundle (mainAnalyzers uni) p sz c" by auto
  with fs show ?case
    by (intro exI [where x = "(p, sz, c) # fs"]) (simp add: mainBundle_def)
qed

lemma atLeastTwoWords_mainBundle:
  "atLeastTwoWords (mainBundle uni f) \<longleftrightarrow> 2 \<le> length (whitespaceTokens (snd (snd f)))"
  by (cases f) (simp add: atLeastTwoWords_def mainBundle_def wordCountOf_main Fields_tokens)

lemma pipeline_consumed:
  assumes "pipeRun env (mainAnalyzers uni) schedule (pipeStart files n) = Some s"
  shows "\<exists>fs. filterStage (delivered s) = Inr (map (mainBundle uni) fs)
           \<and> (\<forall>f\<in>set fs. readFileContent env (fst f) = Inr (snd (snd f), fst (snd f))
                          \<and> 2 \<le> length (whitespaceTokens (snd (snd f))))"
proof -
  from pipeRun_inv [OF pipeStart_inv assms]
  have "\<forall>r\<in>set (delivered s). wellFormed env (mainAnalyzers uni) (Sending r)"
    by (simp add: pipeInv_def list_all_iff)
  from bundles_of_files [OF this] obtain ds where ds: "delivered s = map (mainBundle uni) ds"
    "\<forall>f\<in>set ds. readFileContent env (fst f) = Inr (snd (snd f), fst (snd f))"
    by blast
  let ?fs = "filter (\<lambda>f. 2 \<le> length (whitespaceTokens (snd (snd f)))) ds"
  from delivered_main [OF assms] have "\<forall>res\<in>set (delivered s). wordCountOf res \<noteq> None"
    by blast
  from filterLoop_filter [OF this, of "[]"]
  have "filterStage (delivered s) = Inr (filter atLeastTwoWords (delivered s))"
    by (simp add: filterStage_def)
  also have "filter atLeastTwoWords (delivered s) = map (mainBundle uni) ?fs"
    by (simp add: ds(1) filter_map o_def atLeastTwoWords_mainBundle)
  finally have "filterStage (delivered s) = Inr (map (mainBundle uni) ?fs)" .
  moreover from ds(2) have "\<forall>f\<in>set ?fs. readFileContent env (fst f) = Inr (snd (snd f), fst (snd f))
                          \<and> 2 \<le> length (whitespaceTokens (snd (snd f)))"
    by simp
  ultimately show ?thesis by blast
qed

lemma wordFrequencies_examples:
  "wordFrequencies uni ''a b b'' = [''a'' \<mapsto> 1, ''b'' \<mapsto> 2]"
  "wordFrequencies uni ''a a a'' = [''a'' \<mapsto> 3]"
  "wordFrequencies uni ''x y'' = [''x'' \<mapsto> 1, ''y'' \<mapsto> 1]"
  "wordFrequencies uni ''z'' = [''z'' \<mapsto> 1]"
proof -
  have f: "Fields ''a b b'' = [''a'', ''b'', ''b'']" "Fields ''a a a'' = [''a'', ''a'', ''a'']"
    "Fields ''x y'' = [''x'', ''y'']" "Fields ''z'' = [''z'']"
    by code_simp+
  have "map lowerByte ''a'' = ''a''" "map lowerByte ''b'' = ''b''" "map lowerByte ''x'' = ''x''"
    "map lowerByte ''y'' = ''y''" "map lowerByte ''z'' = ''z''"
    by code_simp+
  then have l: "ToLower uni ''a'' = ''a''" "ToLower uni ''b'' = ''b''" "ToLower uni ''x'' = ''x''"
    "ToLower uni ''y'' = ''y''" "ToLower uni ''z'' = ''z''"
    by (simp_all add: ToLower_def)
  show "wordFrequencies uni ''a b b'' = [''a'' \<mapsto> 1, ''b'' \<mapsto> 2]"
    unfolding wordFrequencies_def Fields_tokens [symmetric] f
    by (rule ext) (simp add: l)
  show "wordFrequencies uni ''a a a'' = [''a'' \<mapsto> 3]"
    unfolding wordFrequencies_def Fields_tokens [symmetric] f
    by (rule ext) (simp add: l)
  show "wordFrequencies uni ''x y'' = [''x'' \<mapsto> 1, ''y'' \<mapsto> 1]"
    unfolding wordFrequencies_def Fields_tokens [symmetric] f
    by (rule ext) (simp add: l)
  show "wordFrequencies uni ''z'' = [''z'' \<mapsto> 1]"
    unfolding wordFrequencies_def Fields_tokens [symmetric] f
    by (rule ext) (simp add: l)
qed

lemma tokens_examples:
  "whitespaceTokens ''a b b'' = [''a'', ''b'', ''b'']"
  "whitespaceTokens ''a a a'' = [''a'', ''a'', ''a'']"
  "whitespaceTokens ''x y'' = [''x'', ''y'']" "whitespaceTokens ''z'' = [''z'']"
proof -
  have "Fields ''a b b'' = [''a'', ''b'', ''b'']" "Fields ''a a a'' = [''a'', ''a'', ''a'']"
    "Fields ''x y'' = [''x'', ''y'']" "Fields ''z'' = [''z'']"
    by code_simp+
  then show "whitespaceTokens ''a b b'' = [''a'', ''b'', ''b'']"
    "whitespaceTokens ''a a a'' = [''a'', ''a'', ''a'']"
    "whitespaceTokens ''x y'' = [''x'', ''y'']" "whitespaceTokens ''z'' = [''z'']"
    by (simp_all add: Fields_tokens)
qed

lemma example_main_aggregate:
  assumes "ranges (ord [''a'' \<mapsto> 1, ''b'' \<mapsto> 2]) [''a'' \<mapsto> 1, ''b'' \<mapsto> 2]"
    and "ranges (ord [''a'' \<mapsto> 3]) [''a'' \<mapsto> 3]"
  shows "aggregate ord [mainBundle uni (''f1'', 5, ''a b b''), mainBundle uni (''f2'', 5, ''a a a'')]
    = Inr \<lparr>totalWords = 6, totalLines = 2, globalMap = [''a'' \<mapsto> 4, ''b'' \<mapsto> 2]\<rparr>"
proof -
  let ?fs = "[(''f1'', 5::int, ''a b b''), (''f2'', 5, ''a a a'')]"
  have "\<forall>f\<in>set ?fs. ranges (ord (wordFrequencies uni (snd (snd f))))
                                (wordFrequencies uni (snd (snd f)))"
    using assms by (simp add: wordFrequencies_examples)
  from aggregateLoop_mainBundles [where ord = ord and uni = uni and fs = ?fs, OF this]
  have "aggregate ord (map (mainBundle uni) ?fs)
      = Inr (foldl (addFile uni) \<lparr>totalWords = 0, totalLines = 0, globalMap = Map.empty\<rparr> ?fs)"
    by (simp only: aggregate_def)
  moreover have "mergeInto (mergeInto Map.empty [''a'' \<mapsto> 1, ''b'' \<mapsto> 2]) [''a'' \<mapsto> 3]
      = [''a'' \<mapsto> (4::int), ''b'' \<mapsto> 2]"
    by (rule ext) (simp add: mergeInto_def get0_def)
  ultimately show ?thesis
    by (simp add: addFile_def wordFrequencies_examples tokens_examples)
qed

text \<open>
  C5. The aggregator merges the frequency map of every bundle it consumes into the global
  map by \<open>globalMap[word] += count\<close>, whatever the order in which the map is visited:
  for a bundle of the interactive pipeline it adds the words and the lines of the file to
  the totals and the word frequencies of the file to the global map, and over the stream
  that the filter stage forwards it adds them file after file. When \<open>topWords > 0\<close>, the
  report holds the first \<open>min(topWords, number of distinct words)\<close> entries of an
  arrangement of all the entries of the global map by descending count. On the bundles
  with the maps \<open>a:1, b:2\<close> and \<open>a:3\<close> the global map is \<open>a:4, b:2\<close> and the report for
  \<open>topWords = 1\<close> is \<open>(a, 4)\<close>.
\<close>

theorem aggregator_merges_and_ranks:
  "(ranges (ord freq) freq \<longrightarrow>
      resultsLoop ord [\<lparr>NameAnalyzer = ''most_frequent_words'', Data = FreqData freq\<rparr>] t
        = Inr (t\<lparr>globalMap := (\<lambda>word. case freq word of
                                        None \<Rightarrow> globalMap t word
                                      | Some cnt \<Rightarrow> Some (get0 (globalMap t) word + cnt))\<rparr>))
   \<and> (ranges (ord (wordFrequencies uni content)) (wordFrequencies uni content) \<longrightarrow>
      resultsLoop ord (Results (mkBundle (mainAnalyzers uni) path sz content)) t
        = Inr (t\<lparr>totalWords := totalWords t + int (length (whitespaceTokens content)),
                 totalLines := totalLines t
                                 + (int (length (filter (\<lambda>c. c = CHR 0x0A) content)) + 1),
                 globalMap := (\<lambda>word. case wordFrequencies uni content word of
                                        None \<Rightarrow> globalMap t word
                                      | Some cnt \<Rightarrow> Some (get0 (globalMap t) word + cnt))\<rparr>))
   \<and> ((\<forall>f\<in>set fs. ranges (ord (wordFrequencies uni (snd (snd f))))
                               (wordFrequencies uni (snd (snd f)))) \<longrightarrow>
      aggregate ord (map (mainBundle uni) fs)
        = Inr (foldl (addFile uni)
                 \<lparr>totalWords = 0, totalLines = 0, globalMap = Map.empty\<rparr> fs))
   \<and> (pipeRun env (mainAnalyzers uni) schedule (pipeStart files workerCount) = Some s \<longrightarrow>
      (\<exists>consumed.
         filterStage (delivered s) = Inr (map (mainBundle uni) consumed)
         \<and> (\<forall>f\<in>set consumed.
               readFileContent env (fst f) = Inr (snd (snd f), fst (snd f))
               \<and> 2 \<le> length (whitespaceTokens (snd (snd f))))
         \<and> ((\<forall>f\<in>set consumed. ranges (ord (wordFrequencies uni (snd (snd f))))
                                        (wordFrequencies uni (snd (snd f)))) \<longrightarrow>
              aggregate ord (map (mainBundle uni) consumed)
                = Inr (foldl (addFile uni)
                         \<lparr>totalWords = 0, totalLines = 0, globalMap = Map.empty\<rparr> consumed))))
   \<and> (0 < topWords \<and> ranges (ord gm) gm \<longrightarrow>
        length (topWordsReport ord gm topWords) = min (nat topWords) (card (dom gm))
        \<and> sorted_wrt (\<lambda>a b. Count b \<le> Count a) (topWordsReport ord gm topWords)
        \<and> (\<exists>words.
             topWordsReport ord gm topWords = take (min (nat topWords) (card (dom gm))) words
             \<and> sorted_wrt (\<lambda>a b. Count b \<le> Count a) words
             \<and> length words = card (dom gm)
             \<and> (\<forall>w c. \<lparr>Word = w, Count = c\<rparr> \<in> set words \<longleftrightarrow> gm w = Some c)))
   \<and> (ranges (ord [''a'' \<mapsto> 1, ''b'' \<mapsto> 2]) [''a'' \<mapsto> 1, ''b'' \<mapsto> 2]
        \<and> ranges (ord [''a'' \<mapsto> 3]) [''a'' \<mapsto> 3]
        \<and> ranges (ord [''a'' \<mapsto> 4, ''b'' \<mapsto> 2]) [''a'' \<mapsto> 4, ''b'' \<mapsto> 2] \<longrightarrow>
        aggregate ord [freqBundle ''f1'' [''a'' \<mapsto> 1, ''b'' \<mapsto> 2],
                       freqBundle ''f2'' [''a'' \<mapsto> 3]]
          = Inr \<lparr>totalWords = 0, totalLines = 0, globalMap = [''a'' \<mapsto> 4, ''b'' \<mapsto> 2]\<rparr>
        \<and> aggregate ord [mainBundle uni (''f1'', 5, ''a b b''),
                         mainBundle uni (''f2'', 5, ''a a a'')]
          = Inr \<lparr>totalWords = 6, totalLines = 2, globalMap = [''a'' \<mapsto> 4, ''b'' \<mapsto> 2]\<rparr>
        \<and> topWordsReport ord [''a'' \<mapsto> 4, ''b'' \<mapsto> 2] 1 = [\<lparr>Word = ''a'', Count = 4\<rparr>])"
proof (intro conjI impI)
  assume "ranges (ord freq) freq"
  then show "resultsLoop ord [\<lparr>NameAnalyzer = ''most_frequent_words'', Data = FreqData freq\<rparr>] t
        = Inr (t\<lparr>globalMap := (\<lambda>word. case freq word of
                                        None \<Rightarrow> globalMap t word
                                      | Some cnt \<Rightarrow> Some (get0 (globalMap t) word + cnt))\<rparr>)"
    by (rule consume_frequencies)
next
  assume "ranges (ord (wordFrequencies uni content)) (wordFrequencies uni content)"
  from resultsLoop_mainBundle [where ord = ord and uni = uni and content = content
      and path = path and sz = sz and t = t, OF this]
  show "resultsLoop ord (Results (mkBundle (mainAnalyzers uni) path sz content)) t
        = Inr (t\<lparr>totalWords := totalWords t + int (length (whitespaceTokens content)),
                 totalLines := totalLines t
                                 + (int (length (filter (\<lambda>c. c = CHR 0x0A) content)) + 1),
                 globalMap := (\<lambda>word. case wordFrequencies uni content word of
                                        None \<Rightarrow> globalMap t word
                                      | Some cnt \<Rightarrow> Some (get0 (globalMap t) word + cnt))\<rparr>)"
    by (simp add: mainBundle_def addFile_def mergeInto_def)
next
  assume "\<forall>f\<in>set fs. ranges (ord (wordFrequencies uni (snd (snd f))))
                               (wordFrequencies uni (snd (snd f)))"
  from aggregateLoop_mainBundles [where ord = ord and uni = uni and fs = fs, OF this]
  show "aggregate ord (map (mainBundle uni) fs)
        = Inr (foldl (addFile uni)
                 \<lparr>totalWords = 0, totalLines = 0, globalMap = Map.empty\<rparr> fs)"
    by (simp only: aggregate_def)
next
  assume "pipeRun env (mainAnalyzers uni) schedule (pipeStart files workerCount) = Some s"
  from pipeline_consumed [OF this] obtain consumed where
    c: "filterStage (delivered s) = Inr (map (mainBundle uni) consumed)"
    "\<forall>f\<in>set consumed. readFileContent env (fst f) = Inr (snd (snd f), fst (snd f))
                          \<and> 2 \<le> length (whitespaceTokens (snd (snd f)))"
    by blast
  have "(\<forall>f\<in>set consumed. ranges (ord (wordFrequencies uni (snd (snd f))))
                                        (wordFrequencies uni (snd (snd f)))) \<longrightarrow>
              aggregate ord (map (mainBundle uni) consumed)
                = Inr (foldl (addFile uni)
                         \<lparr>totalWords = 0, totalLines = 0, globalMap = Map.empty\<rparr> consumed)"
  proof
    assume "\<forall>f\<in>set consumed. ranges (ord (wordFrequencies uni (snd (snd f))))
                                        (wordFrequencies uni (snd (snd f)))"
    from aggregateLoop_mainBundles [where ord = ord and uni = uni and fs = consumed, OF this]
    show "aggregate ord (map (mainBundle uni) consumed)
                = Inr (foldl (addFile uni)
                         \<lparr>totalWords = 0, totalLines = 0, globalMap = Map.empty\<rparr> consumed)"
      by (simp only: aggregate_def)
  qed
  with c show "\<exists>consumed.
         filterStage (delivered s) = Inr (map (mainBundle uni) consumed)
         \<and> (\<forall>f\<in>set consumed.
               readFileContent env (fst f) = Inr (snd (snd f), fst (snd f))
               \<and> 2 \<le> length (whitespaceTokens (snd (snd f))))
         \<and> ((\<forall>f\<in>set consumed. ranges (ord (wordFrequencies uni (snd (snd f))))
                                        (wordFrequencies uni (snd (snd f)))) \<longrightarrow>
              aggregate ord (map (mainBundle uni) consumed)
                = Inr (foldl (addFile uni)
                         \<lparr>totalWords = 0, totalLines = 0, globalMap = Map.empty\<rparr> consumed))"
    by blast
next
  assume a: "0 < topWords \<and> ranges (ord gm) gm"
  then have n: "0 < topWords" and r: "ranges (ord gm) gm" by simp_all
  from n r show "length (topWordsReport ord gm topWords) = min (nat topWords) (card (dom gm))"
    by (rule topWordsReport_length_sorted)
  from n r show "sorted_wrt (\<lambda>a b. Count b \<le> Count a) (topWordsReport ord gm topWords)"
    by (rule topWordsReport_length_sorted)
  from n r show "\<exists>words.
             topWordsReport ord gm topWords = take (min (nat topWords) (card (dom gm))) words
             \<and> sorted_wrt (\<lambda>a b. Count b \<le> Count a) words
             \<and> length words = card (dom gm)
             \<and> (\<forall>w c. \<lparr>Word = w, Count = c\<rparr> \<in> set words \<longleftrightarrow> gm w = Some c)"
    by (rule topWordsReport_sorted_prefix)
next
  assume a: "ranges (ord [''a'' \<mapsto> 1, ''b'' \<mapsto> 2]) [''a'' \<mapsto> 1, ''b'' \<mapsto> 2]
        \<and> ranges (ord [''a'' \<mapsto> 3]) [''a'' \<mapsto> 3]
        \<and> ranges (ord [''a'' \<mapsto> 4, ''b'' \<mapsto> 2]) [''a'' \<mapsto> 4, ''b'' \<mapsto> 2]"
  then show "aggregate ord [freqBundle ''f1'' [''a'' \<mapsto> 1, ''b'' \<mapsto> 2],
                       freqBundle ''f2'' [''a'' \<mapsto> 3]]
          = Inr \<lparr>totalWords = 0, totalLines = 0, globalMap = [''a'' \<mapsto> 4, ''b'' \<mapsto> 2]\<rparr>"
    by (intro example_aggregate) simp_all
  from a show "aggregate ord [mainBundle uni (''f1'', 5, ''a b b''),
                         mainBundle uni (''f2'', 5, ''a a a'')]
          = Inr \<lparr>totalWords = 6, totalLines = 2, globalMap = [''a'' \<mapsto> 4, ''b'' \<mapsto> 2]\<rparr>"
    by (intro example_main_aggregate) simp_all
  from a show "topWordsReport ord [''a'' \<mapsto> 4, ''b'' \<mapsto> 2] 1 = [\<lparr>Word = ''a'', Count = 4\<rparr>]"
    by (intro example_top) simp
qed

text \<open>
  The theorem with the orders of visit \<open>someOrder\<close> and \<open>visitOrder\<close>: on the maps of the
  example, on the bundle of the first file of \<open>twoFiles\<close>, on the bundles of its two files,
  and on the stream that the interactive pool delivers for them.
\<close>

lemma someOrder_ranges:
  "ranges (someOrder [''a'' \<mapsto> 1, ''b'' \<mapsto> 2]) [''a'' \<mapsto> 1, ''b'' \<mapsto> 2]"
  "ranges (someOrder [''a'' \<mapsto> 3]) [''a'' \<mapsto> 3]"
  "ranges (someOrder [''a'' \<mapsto> 4, ''b'' \<mapsto> 2]) [''a'' \<mapsto> 4, ''b'' \<mapsto> 2]"
  by (simp_all add: ranges_def someOrder_def)

lemma visitOrder_ranges:
  "ranges (visitOrder (wordFrequencies (\<lambda>s. s) ''x y'')) (wordFrequencies (\<lambda>s. s) ''x y'')"
  "ranges (visitOrder (wordFrequencies (\<lambda>s. s) ''z'')) (wordFrequencies (\<lambda>s. s) ''z'')"
  unfolding wordFrequencies_examples
  by (simp_all add: ranges_def visitOrder_def)

theorem aggregator_merges_and_ranks_witness:
  "ranges (someOrder [''a'' \<mapsto> 1, ''b'' \<mapsto> 2]) [''a'' \<mapsto> 1, ''b'' \<mapsto> 2]
   \<and> ranges (someOrder [''a'' \<mapsto> 3]) [''a'' \<mapsto> 3]
   \<and> ranges (someOrder [''a'' \<mapsto> 4, ''b'' \<mapsto> 2]) [''a'' \<mapsto> 4, ''b'' \<mapsto> 2]
   \<and> resultsLoop someOrder
         [\<lparr>NameAnalyzer = ''most_frequent_words'', Data = FreqData [''a'' \<mapsto> 3]\<rparr>]
         \<lparr>totalWords = 0, totalLines = 0, globalMap = [''a'' \<mapsto> 1, ''b'' \<mapsto> 2]\<rparr>
       = Inr \<lparr>totalWords = 0, totalLines = 0, globalMap = [''a'' \<mapsto> 4, ''b'' \<mapsto> 2]\<rparr>
   \<and> aggregate someOrder [freqBundle ''f1'' [''a'' \<mapsto> 1, ''b'' \<mapsto> 2],
                           freqBundle ''f2'' [''a'' \<mapsto> 3]]
       = Inr \<lparr>totalWords = 0, totalLines = 0, globalMap = [''a'' \<mapsto> 4, ''b'' \<mapsto> 2]\<rparr>
   \<and> aggregate someOrder [mainBundle (\<lambda>s. s) (''f1'', 5, ''a b b''),
                           mainBundle (\<lambda>s. s) (''f2'', 5, ''a a a'')]
       = Inr \<lparr>totalWords = 6, totalLines = 2, globalMap = [''a'' \<mapsto> 4, ''b'' \<mapsto> 2]\<rparr>
   \<and> (0::int) < 1
   \<and> topWordsReport someOrder [''a'' \<mapsto> 4, ''b'' \<mapsto> 2] 1 = [\<lparr>Word = ''a'', Count = 4\<rparr>]
   \<and> (0::int) < 5
   \<and> length (topWordsReport someOrder [''a'' \<mapsto> 4, ''b'' \<mapsto> 2] 5) = 2
   \<and> ranges (visitOrder (wordFrequencies (\<lambda>s. s) ''x y'')) (wordFrequencies (\<lambda>s. s) ''x y'')
   \<and> ranges (visitOrder (wordFrequencies (\<lambda>s. s) ''z'')) (wordFrequencies (\<lambda>s. s) ''z'')
   \<and> resultsLoop visitOrder
         (Results (mkBundle (mainAnalyzers (\<lambda>s. s)) ''/tmp/a.txt'' 3 ''x y''))
         \<lparr>totalWords = 0, totalLines = 0, globalMap = Map.empty\<rparr>
       = Inr \<lparr>totalWords = 2, totalLines = 1, globalMap = [''x'' \<mapsto> 1, ''y'' \<mapsto> 1]\<rparr>
   \<and> aggregate visitOrder
         (map (mainBundle (\<lambda>s. s)) [(''/tmp/a.txt'', 3, ''x y''), (''/tmp/b.txt'', 1, ''z'')])
       = Inr \<lparr>totalWords = 3, totalLines = 2,
              globalMap = [''x'' \<mapsto> 1, ''y'' \<mapsto> 1, ''z'' \<mapsto> 1]\<rparr>
   \<and> pipeRun twoFiles (mainAnalyzers (\<lambda>s. s)) pipeInterleaved
         (pipeStart [''/tmp/a.txt'', ''/tmp/b.txt''] 2)
       = Some \<lparr>cancelled = False, toFeed = [], filePathsClosed = True, filePaths = [],
               poolWorkers = [Done, Done], resultsDone = True,
               delivered = [mkBundle (mainAnalyzers (\<lambda>s. s)) ''/tmp/a.txt'' 3 ''x y'',
                            mkBundle (mainAnalyzers (\<lambda>s. s)) ''/tmp/b.txt'' 1 ''z'']\<rparr>
   \<and> (\<exists>consumed.
         filterStage [mkBundle (mainAnalyzers (\<lambda>s. s)) ''/tmp/a.txt'' 3 ''x y'',
                      mkBundle (mainAnalyzers (\<lambda>s. s)) ''/tmp/b.txt'' 1 ''z'']
           = Inr (map (mainBundle (\<lambda>s. s)) consumed)
         \<and> aggregate visitOrder (map (mainBundle (\<lambda>s. s)) consumed)
             = Inr (foldl (addFile (\<lambda>s. s))
                      \<lparr>totalWords = 0, totalLines = 0, globalMap = Map.empty\<rparr> consumed))"
proof -
  let ?m1 = "[''a'' \<mapsto> 1, ''b'' \<mapsto> (2::int)]"
  let ?m2 = "[''a'' \<mapsto> (3::int)]"
  let ?gm = "[''a'' \<mapsto> 4, ''b'' \<mapsto> (2::int)]"
  let ?start = "\<lparr>totalWords = 0, totalLines = 0, globalMap = ?m1\<rparr>"
  let ?zero = "\<lparr>totalWords = 0, totalLines = 0, globalMap = Map.empty\<rparr>"
  let ?id = "\<lambda>s::string. s"
  let ?fs = "[(''/tmp/a.txt'', 3::int, ''x y''), (''/tmp/b.txt'', 1, ''z'')]"
  note r = someOrder_ranges
  note v = visitOrder_ranges
  have m: "(\<lambda>word. case ?m2 word of None \<Rightarrow> ?m1 word | Some cnt \<Rightarrow> Some (get0 ?m1 word + cnt)) = ?gm"
    by (rule ext) (simp add: get0_def)
  from aggregator_merges_and_ranks [where ord = someOrder and freq = ?m2 and t = ?start] r(2)
  have "resultsLoop someOrder [\<lparr>NameAnalyzer = ''most_frequent_words'', Data = FreqData ?m2\<rparr>] ?start
      = Inr (?start\<lparr>globalMap := (\<lambda>word. case ?m2 word of
                                        None \<Rightarrow> globalMap ?start word
                                      | Some cnt \<Rightarrow> Some (get0 (globalMap ?start) word + cnt))\<rparr>)"
    by blast
  then have 1: "resultsLoop someOrder
         [\<lparr>NameAnalyzer = ''most_frequent_words'', Data = FreqData ?m2\<rparr>] ?start
       = Inr \<lparr>totalWords = 0, totalLines = 0, globalMap = ?gm\<rparr>"
    by (simp only: totals.simps m)
  from aggregator_merges_and_ranks [where ord = someOrder and uni = ?id] r
  have 2: "aggregate someOrder [freqBundle ''f1'' ?m1, freqBundle ''f2'' ?m2]
       = Inr \<lparr>totalWords = 0, totalLines = 0, globalMap = ?gm\<rparr>"
    and 8: "aggregate someOrder [mainBundle ?id (''f1'', 5, ''a b b''),
                                 mainBundle ?id (''f2'', 5, ''a a a'')]
       = Inr \<lparr>totalWords = 6, totalLines = 2, globalMap = ?gm\<rparr>"
    and 3: "topWordsReport someOrder ?gm 1 = [\<lparr>Word = ''a'', Count = 4\<rparr>]"
    by blast+
  have "dom ?gm = {''a'', ''b''}" by auto
  then have card: "card (dom ?gm) = 2" by simp
  have five: "(0::int) < 5" by simp
  from aggregator_merges_and_ranks [where ord = someOrder and gm = ?gm and topWords = 5] r(3) five
  have "length (topWordsReport someOrder ?gm 5) = min (nat 5) (card (dom ?gm))"
    by blast
  with card have 4: "length (topWordsReport someOrder ?gm 5) = 2" by simp
  have mx: "(\<lambda>word. case wordFrequencies ?id ''x y'' word of
                      None \<Rightarrow> globalMap ?zero word
                    | Some cnt \<Rightarrow> Some (get0 (globalMap ?zero) word + cnt))
              = [''x'' \<mapsto> 1, ''y'' \<mapsto> (1::int)]"
    by (rule ext) (simp add: wordFrequencies_examples get0_def)
  from aggregator_merges_and_ranks [where ord = visitOrder and uni = ?id and content = "''x y''"
      and path = "''/tmp/a.txt''" and sz = 3 and t = ?zero] v(1)
  have raw: "resultsLoop visitOrder (Results (mkBundle (mainAnalyzers ?id) ''/tmp/a.txt'' 3 ''x y'')) ?zero
      = Inr (?zero\<lparr>totalWords := totalWords ?zero + int (length (whitespaceTokens ''x y'')),
                 totalLines := totalLines ?zero
                                 + (int (length (filter (\<lambda>c. c = CHR 0x0A) ''x y'')) + 1),
                 globalMap := (\<lambda>word. case wordFrequencies ?id ''x y'' word of
                                        None \<Rightarrow> globalMap ?zero word
                                      | Some cnt \<Rightarrow> Some (get0 (globalMap ?zero) word + cnt))\<rparr>)"
    by blast
  have 5: "resultsLoop visitOrder
         (Results (mkBundle (mainAnalyzers ?id) ''/tmp/a.txt'' 3 ''x y'')) ?zero
       = Inr \<lparr>totalWords = 2, totalLines = 1, globalMap = [''x'' \<mapsto> 1, ''y'' \<mapsto> 1]\<rparr>"
    unfolding raw mx by (simp add: tokens_examples)
  have vs: "\<forall>f\<in>set ?fs. ranges (visitOrder (wordFrequencies ?id (snd (snd f))))
                                 (wordFrequencies ?id (snd (snd f)))"
    using v by simp
  from aggregator_merges_and_ranks [where ord = visitOrder and uni = ?id and fs = ?fs] vs
  have "aggregate visitOrder (map (mainBundle ?id) ?fs) = Inr (foldl (addFile ?id) ?zero ?fs)"
    by blast
  moreover have "mergeInto (mergeInto Map.empty [''x'' \<mapsto> 1, ''y'' \<mapsto> 1]) [''z'' \<mapsto> 1]
      = [''x'' \<mapsto> 1, ''y'' \<mapsto> 1, ''z'' \<mapsto> (1::int)]"
    by (rule ext) (simp add: mergeInto_def get0_def)
  ultimately have 6: "aggregate visitOrder (map (mainBundle ?id) ?fs)
       = Inr \<lparr>totalWords = 3, totalLines = 2,
              globalMap = [''x'' \<mapsto> 1, ''y'' \<mapsto> 1, ''z'' \<mapsto> 1]\<rparr>"
    by (simp add: addFile_def tokens_examples wordFrequencies_examples)
  let ?final = "\<lparr>cancelled = False, toFeed = [], filePathsClosed = True, filePaths = [],
               poolWorkers = [Done, Done], resultsDone = True,
               delivered = [mkBundle (mainAnalyzers ?id) ''/tmp/a.txt'' 3 ''x y'',
                            mkBundle (mainAnalyzers ?id) ''/tmp/b.txt'' 1 ''z'']\<rparr>"
  note pipe = aggregator_merges_and_ranks [where ord = visitOrder and uni = ?id and env = twoFiles
      and schedule = pipeInterleaved and files = "[''/tmp/a.txt'', ''/tmp/b.txt'']"
      and workerCount = 2 and s = ?final,
      THEN conjunct2, THEN conjunct2, THEN conjunct2, THEN conjunct1, THEN mp,
      OF pipe_interleaved_state]
  then obtain consumed where c:
    "filterStage (delivered ?final) = Inr (map (mainBundle ?id) consumed)"
    "\<forall>f\<in>set consumed. readFileContent twoFiles (fst f) = Inr (snd (snd f), fst (snd f))
                          \<and> 2 \<le> length (whitespaceTokens (snd (snd f)))"
    "(\<forall>f\<in>set consumed. ranges (visitOrder (wordFrequencies ?id (snd (snd f))))
                                        (wordFrequencies ?id (snd (snd f)))) \<longrightarrow>
       aggregate visitOrder (map (mainBundle ?id) consumed) = Inr (foldl (addFile ?id) ?zero consumed)"
    by (elim exE conjE)
  have rg: "\<forall>f\<in>set consumed. ranges (visitOrder (wordFrequencies ?id (snd (snd f))))
                                        (wordFrequencies ?id (snd (snd f)))"
  proof
    fix f assume f: "f \<in> set consumed"
    with c(2) have rd: "readFileContent twoFiles (fst f) = Inr (snd (snd f), fst (snd f))"
      by blast
    have "snd (snd f) = ''x y'' \<or> snd (snd f) = ''z''"
    proof (cases "fst f = ''/tmp/a.txt''")
      case True
      with rd show ?thesis by (simp add: read_twoFiles)
    next
      case False
      note na = this
      show ?thesis
      proof (cases "fst f = ''/tmp/b.txt''")
        case True
        with rd show ?thesis by (simp add: read_twoFiles)
      next
        case False
        with na have "readFileContent twoFiles (fst f) = Inl (Error ''no such file'')"
          by (simp add: readFileContent_def twoFiles_def)
        with rd show ?thesis by simp
      qed
    qed
    then show "ranges (visitOrder (wordFrequencies ?id (snd (snd f))))
                        (wordFrequencies ?id (snd (snd f)))"
    proof
      assume "snd (snd f) = ''x y''"
      then show ?thesis by (simp only: v(1))
    next
      assume "snd (snd f) = ''z''"
      then show ?thesis by (simp only: v(2))
    qed
  qed
  from c(3) rg have ag: "aggregate visitOrder (map (mainBundle ?id) consumed)
      = Inr (foldl (addFile ?id) ?zero consumed)"
    by (rule mp)
  from c(1) have fl: "filterStage [mkBundle (mainAnalyzers ?id) ''/tmp/a.txt'' 3 ''x y'',
                      mkBundle (mainAnalyzers ?id) ''/tmp/b.txt'' 1 ''z'']
           = Inr (map (mainBundle ?id) consumed)"
    by (simp only: pipeline.select_convs)
  have 7: "\<exists>consumed.
         filterStage [mkBundle (mainAnalyzers ?id) ''/tmp/a.txt'' 3 ''x y'',
                      mkBundle (mainAnalyzers ?id) ''/tmp/b.txt'' 1 ''z'']
           = Inr (map (mainBundle ?id) consumed)
         \<and> aggregate visitOrder (map (mainBundle ?id) consumed)
             = Inr (foldl (addFile ?id) ?zero consumed)"
    by (rule exI [where x = consumed]) (rule conjI [OF fl ag])
  have one: "(0::int) < 1" by simp
  show ?thesis
    by (intro conjI) (rule r v 1 2 8 3 4 5 6 7 one five pipe_interleaved_state)+
qed

end
